theory Spec2Isabelle
  imports Complex_Main "HOL-Library.Word" "HOL-Library.Multiset"
begin

section \<open>The environment of the program\<close>

text \<open>
  The two packages of the repository, \<^verbatim>\<open>scanner\<close> and \<^verbatim>\<open>copier\<close>, are concurrent Go
  programs: goroutines that share a struct, a few channels and the file system.
  Each package is embedded as a state machine.  The state is a record holding the
  struct's fields, the local variables of the goroutine started by
  \<^verbatim>\<open>ScanDirectory\<close> / \<^verbatim>\<open>CopyFilesParallel\<close>, one program counter per goroutine, and
  the part of the environment the code reads or writes (file system, clock).  A
  step function executes one atomic action of one goroutine, chosen by an
  \<open>event\<close>; a schedule is a list of events, so every interleaving of the goroutines
  is some schedule.  A step that the Go runtime would block (a send that cannot
  proceed, a receive of a worker from an empty channel, \<^verbatim>\<open>Wait\<close> on a non-zero
  \<^verbatim>\<open>WaitGroup\<close>) leaves the state unchanged: the goroutine tries again when the
  schedule names it next.
\<close>

subsection \<open>Paths and the file system\<close>

text \<open>
  A path is the list of its components below the root, already cleaned
  (\<^verbatim>\<open>/a/b\<close> is \<open>[''a'', ''b'']\<close>).  The file system is a tree; a node that is not a
  directory is a \<open>File\<close> with its bytes (the code only ever asks \<^verbatim>\<open>IsDir()\<close>).
\<close>

type_synonym byte = "8 word"
type_synonym path = "string list"

datatype node = File "byte list" | Directory "(string \<times> node) list"

fun is_dir :: "node \<Rightarrow> bool" where
  "is_dir (Directory es) = True"
| "is_dir (File c) = False"

fun lookup :: "node \<Rightarrow> path \<Rightarrow> node option" where
  "lookup n [] = Some n"
| "lookup n (x # xs) =
     (case n of
        File c \<Rightarrow> None
      | Directory es \<Rightarrow> (case map_of es x of None \<Rightarrow> None | Some m \<Rightarrow> lookup m xs))"

text \<open>The size \<^verbatim>\<open>FileInfo.Size()\<close> reports; for a directory it is system dependent, here 0.\<close>

fun node_size :: "node \<Rightarrow> int" where
  "node_size (File c) = int (length c)"
| "node_size (Directory es) = 0"

text \<open>The number of non-directory entries in a tree.\<close>

fun count_files :: "node \<Rightarrow> nat" where
  "count_files (File c) = 1"
| "count_files (Directory es) = sum_list (map (\<lambda>e. count_files (snd e)) es)"

text \<open>In a well-formed tree the names inside one directory are pairwise different.\<close>

fun wf_node :: "node \<Rightarrow> bool" where
  "wf_node (File c) = True"
| "wf_node (Directory es) = (distinct (map fst es) \<and> (\<forall>e \<in> set es. wf_node (snd e)))"

text \<open>The number of files inside the directory at path \<open>p\<close> (0 when \<open>p\<close> is no directory).\<close>

definition files_under :: "node \<Rightarrow> path \<Rightarrow> nat" where
  "files_under t p =
     (case lookup t p of Some (Directory es) \<Rightarrow> count_files (Directory es) | _ \<Rightarrow> 0)"

subsection \<open>Errors\<close>

text \<open>One constructor for each place where the code builds or receives an \<^verbatim>\<open>error\<close>.\<close>

datatype error =
    ErrReadDir path
  | ErrLstat path
  | ErrRel path
  | ErrMkdirAll path
  | ErrStat path
  | ErrOpen path
  | ErrCreate path
  | ErrRead path
  | ErrWrite path
  | ErrCanceled

subsection \<open>Channels\<close>

text \<open>
  A channel \<^verbatim>\<open>make(chan T, n)\<close>: its capacity, the values waiting in its buffer,
  whether it is closed, and the number of goroutines of the caller that are blocked
  in a receive on it.  \<open>hist\<close> is a history variable: every value the channel ever
  accepted, in order, so that "what was emitted on the stream" can be stated; no
  step reads it.

  With \<open>n > 0\<close> the channel is buffered: a send proceeds when the buffer has room, a
  receive when the buffer is not empty.  With \<open>n = 0\<close> it is unbuffered: a send
  proceeds only when a receiver is waiting, and hands the value to that receiver; the
  buffer stays empty.  (On a buffered channel a receiver waiting at the empty buffer
  takes a value as soon as it is sent, which is the value passing through the
  buffer; so waiting receivers are recorded for unbuffered channels only.)
\<close>

record 'a chan =
  cap :: nat
  buf :: "'a list"
  closed :: bool
  hist :: "'a list"
  receivers :: nat

definition make_chan :: "nat \<Rightarrow> 'a chan" where
  "make_chan n = \<lparr>cap = n, buf = [], closed = False, hist = [], receivers = 0\<rparr>"

text \<open>\<open>full\<close>: a send cannot proceed now (no free slot; unbuffered: no receiver waiting).\<close>

definition full :: "'a chan \<Rightarrow> bool" where
  "full ch = (if cap ch = 0 then receivers ch = 0 else cap ch \<le> length (buf ch))"

definition enqueue :: "'a \<Rightarrow> 'a chan \<Rightarrow> 'a chan" where
  "enqueue x ch = ch\<lparr>buf := buf ch @ [x], hist := hist ch @ [x]\<rparr>"

definition hand_over :: "'a \<Rightarrow> 'a chan \<Rightarrow> 'a chan" where
  "hand_over x ch = ch\<lparr>hist := hist ch @ [x], receivers := receivers ch - 1\<rparr>"

text \<open>The channel takes a value that is sent while it is not \<open>full\<close>.\<close>

definition accept :: "'a \<Rightarrow> 'a chan \<Rightarrow> 'a chan" where
  "accept x ch = (if cap ch = 0 then hand_over x ch else enqueue x ch)"

definition dequeue :: "'a chan \<Rightarrow> 'a chan" where
  "dequeue ch = ch\<lparr>buf := tl (buf ch)\<rparr>"

text \<open>
  A goroutine of the caller receives from a stream: it takes the first buffered
  value; at an open unbuffered channel it waits for a sender; at an empty buffer or a
  closed channel nothing changes.
\<close>

definition recv :: "'a chan \<Rightarrow> 'a chan" where
  "recv ch =
     (case buf ch of
        x # xs \<Rightarrow> dequeue ch
      | [] \<Rightarrow> if cap ch = 0 \<and> \<not> closed ch then ch\<lparr>receivers := Suc (receivers ch)\<rparr> else ch)"

text \<open>\<^verbatim>\<open>close(ch)\<close> also releases the waiting receivers.\<close>

definition close_chan :: "'a chan \<Rightarrow> 'a chan" where
  "close_chan ch = ch\<lparr>closed := True, receivers := 0\<rparr>"

text \<open>
  \<^verbatim>\<open>ch <- x\<close>: panics on a closed channel, blocks while the channel cannot take the
  value.
\<close>

datatype 'a sent = Sent "'a chan" | Blocked | SendPanic

definition send :: "'a \<Rightarrow> 'a chan \<Rightarrow> 'a sent" where
  "send x ch =
     (if closed ch then SendPanic else if full ch then Blocked else Sent (accept x ch))"

text \<open>
  \<^verbatim>\<open>select { case ch <- x: default: }\<close>: never blocks; when the channel cannot take the
  value now, the value is dropped and the channel is left as it was.  \<open>None\<close> is the
  panic of a send on a closed channel.
\<close>

definition try_send :: "'a \<Rightarrow> 'a chan \<Rightarrow> 'a chan option" where
  "try_send x ch =
     (if closed ch then None else if full ch then Some ch else Some (accept x ch))"

text \<open>
  \<^verbatim>\<open>atomic.AddInt64\<close> on an \<^verbatim>\<open>int64\<close>: the sum wraps around in two's complement.
\<close>

definition wrap64 :: "int \<Rightarrow> int" where
  "wrap64 x = (x + 2 ^ 63) mod 2 ^ 64 - 2 ^ 63"

subsection \<open>Events\<close>

text \<open>
  \<open>Worker i\<close>: worker goroutine \<open>i\<close> executes its next action.
  \<open>Fault i\<close>: the system call worker \<open>i\<close> is about to make fails (permission denied,
  I/O error, disk full); elsewhere it does nothing.
  \<open>Cancel\<close>: some goroutine of the caller calls \<^verbatim>\<open>Cancel()\<close>.
  \<open>Clock d\<close>: \<open>d\<close> nanoseconds pass on the monotonic clock.
  \<open>MainStep\<close>: the goroutine started by \<^verbatim>\<open>ScanDirectory\<close> / \<^verbatim>\<open>CopyFilesParallel\<close> moves.
  \<open>Closer\<close>: the goroutine \<^verbatim>\<open>dirWG.Wait(); close(dirCh)\<close> of the scanner moves.
  \<open>MonTick\<close>, \<open>MonSend\<close>, \<open>MonDone\<close>: \<^verbatim>\<open>monitorProgress\<close> takes the ticker case and
  builds a snapshot, offers the snapshot to the progress channel, takes the
  \<^verbatim>\<open>done\<close> case.
  \<open>RecvFile\<close>, \<open>RecvErr\<close>, \<open>RecvProgress\<close>, \<open>RecvResult\<close>: a goroutine of the caller
  executes a receive on the stream.
\<close>

datatype event =
    Worker nat
  | Fault nat
  | Cancel
  | Clock nat
  | MainStep
  | Closer
  | MonTick
  | MonSend
  | MonDone
  | RecvFile
  | RecvErr
  | RecvProgress
  | RecvResult

text \<open>\<^verbatim>\<open>time.Duration.Seconds()\<close> of a duration in nanoseconds (as an exact real).\<close>

definition seconds :: "int \<Rightarrow> real" where
  "seconds d = real_of_int d / 1000000000"

text \<open>
  The process environment: for each variable its value when it is set and parses
  (\<^verbatim>\<open>strconv.Atoi\<close>, or one of the spellings \<^verbatim>\<open>getEnvBool\<close> accepts).
\<close>

record env =
  env_int :: "string \<Rightarrow> int option"
  env_bool :: "string \<Rightarrow> bool option"

definition getEnvInt :: "env \<Rightarrow> string \<Rightarrow> int \<Rightarrow> int" where
  "getEnvInt e key def = (case env_int e key of Some n \<Rightarrow> n | None \<Rightarrow> def)"

definition getEnvBool :: "env \<Rightarrow> string \<Rightarrow> bool \<Rightarrow> bool" where
  "getEnvBool e key def = (case env_bool e key of Some b \<Rightarrow> b | None \<Rightarrow> def)"

section \<open>Package scanner\<close>

record Progress =
  TotalFiles :: int
  TotalSize :: int
  Speed :: real
  ElapsedTime :: int

record FileInfo =
  Path :: path
  Size :: int
  Dir :: path

record Scanner =
  progressCh :: "Progress chan"
  filesCh :: "FileInfo chan"
  errCh :: "error chan"
  startTime :: nat
  concurrency :: int
  tickInterval :: int
  totalFiles :: int
  totalSize :: int
  canceled :: bool

text \<open>
  \<^verbatim>\<open>NewScanner\<close>.  \<open>ncpu\<close> is \<^verbatim>\<open>runtime.NumCPU()\<close>, \<open>t\<close> is \<^verbatim>\<open>time.Now()\<close>.  \<^verbatim>\<open>make\<close> panics
  on a negative size: \<open>None\<close>.
\<close>

definition NewScanner :: "env \<Rightarrow> int \<Rightarrow> nat \<Rightarrow> Scanner option" where
  "NewScanner e ncpu t =
     (let progressBuf = getEnvInt e ''SCANNER_PROGRESS_BUF'' 100;
          filesBuf = getEnvInt e ''SCANNER_FILES_BUF'' 1000;
          errBuf = getEnvInt e ''SCANNER_ERR_BUF'' 100;
          conc0 = getEnvInt e ''SCANNER_CONCURRENCY'' (max 8 (ncpu * 4));
          conc = (if conc0 < 1 then 1 else conc0);
          tickMs0 = getEnvInt e ''SCANNER_TICK_MS'' 500;
          tickMs = (if tickMs0 < 10 then 10 else tickMs0)
      in if progressBuf < 0 \<or> filesBuf < 0 \<or> errBuf < 0 then None
         else Some \<lparr>progressCh = make_chan (nat progressBuf),
                    filesCh = make_chan (nat filesBuf),
                    errCh = make_chan (nat errBuf),
                    startTime = t,
                    concurrency = conc,
                    tickInterval = tickMs * 1000000,
                    totalFiles = 0,
                    totalSize = 0,
                    canceled = False\<rparr>)"

text \<open>
  \<^verbatim>\<open>os.ReadDir\<close> and \<^verbatim>\<open>os.Lstat\<close> on the tree (methods are named with their receiver:
  \<open>Scanner_Close\<close> is \<^verbatim>\<open>(*Scanner).Close\<close>).  A directory entry is its name and its
  \<^verbatim>\<open>IsDir()\<close>.  (\<^verbatim>\<open>os.ReadDir\<close> sorts by name; here the order is the one of the tree.)
\<close>

type_synonym DirEntry = "string \<times> bool"

definition ReadDir :: "node \<Rightarrow> path \<Rightarrow> error + DirEntry list" where
  "ReadDir t p =
     (case lookup t p of
        Some (Directory es) \<Rightarrow> Inr (map (\<lambda>e. (fst e, is_dir (snd e))) es)
      | _ \<Rightarrow> Inl (ErrReadDir p))"

definition Lstat :: "node \<Rightarrow> path \<Rightarrow> error + int" where
  "Lstat t p = (case lookup t p of Some n \<Rightarrow> Inr (node_size n) | None \<Rightarrow> Inl (ErrLstat p))"

text \<open>
  The program points of one scan worker (the goroutine started in the loop of
  \<^verbatim>\<open>ScanDirectory\<close>): each constructor is the statement the worker executes next, with
  its live local variables.
\<close>

datatype sworker =
    SRecv                                \<comment> \<open>\<^verbatim>\<open>for dir := range dirCh\<close>\<close>
  | SCheck path                          \<comment> \<open>\<^verbatim>\<open>if atomic.LoadInt32(&s.canceled) == 1\<close>\<close>
  | SReadDir path                        \<comment> \<open>\<^verbatim>\<open>entries, err := os.ReadDir(dir)\<close>\<close>
  | SErrDir error                        \<comment> \<open>\<^verbatim>\<open>select { case s.errCh <- err: default: }\<close>\<close>
  | SWGDone                              \<comment> \<open>\<^verbatim>\<open>dirWG.Done()\<close>, then \<^verbatim>\<open>continue\<close>\<close>
  | SRange path "DirEntry list"          \<comment> \<open>\<^verbatim>\<open>for _, entry := range entries\<close> and its cancel check\<close>
  | SAdd path path "DirEntry list"       \<comment> \<open>\<^verbatim>\<open>dirWG.Add(1)\<close>\<close>
  | SPush path path "DirEntry list"      \<comment> \<open>\<^verbatim>\<open>dirCh <- entryPath\<close>\<close>
  | SLstat path path "DirEntry list"     \<comment> \<open>\<^verbatim>\<open>info, err := os.Lstat(entryPath)\<close>\<close>
  | SErrLstat error path "DirEntry list" \<comment> \<open>\<^verbatim>\<open>select { case s.errCh <- err: default: }\<close>\<close>
  | SCount FileInfo "DirEntry list"      \<comment> \<open>\<^verbatim>\<open>atomic.AddInt64(&s.totalFiles, 1)\<close>\<close>
  | SCountSize FileInfo "DirEntry list"  \<comment> \<open>\<^verbatim>\<open>atomic.AddInt64(&s.totalSize, fileInfo.Size)\<close>\<close>
  | SCheckSend FileInfo "DirEntry list"  \<comment> \<open>\<^verbatim>\<open>if atomic.LoadInt32(&s.canceled) == 0\<close>\<close>
  | SSend FileInfo "DirEntry list"       \<comment> \<open>\<^verbatim>\<open>s.filesCh <- fileInfo\<close>\<close>
  | SExit                                \<comment> \<open>\<^verbatim>\<open>workers.Done()\<close>, returned\<close>

datatype smain =
    MSendRoot path                       \<comment> \<open>\<^verbatim>\<open>dirCh <- path\<close>\<close>
  | MWait                                \<comment> \<open>\<^verbatim>\<open>workers.Wait()\<close>\<close>
  | MCloseDone                           \<comment> \<open>\<^verbatim>\<open>close(done)\<close>\<close>
  | MFinal                               \<comment> \<open>\<^verbatim>\<open>s.sendFinalProgress()\<close>: the snapshot is built\<close>
  | MFinalSend Progress                  \<comment> \<open>\<^verbatim>\<open>s.sendFinalProgress()\<close>: at the non-blocking send\<close>
  | MClose                               \<comment> \<open>deferred \<^verbatim>\<open>s.Close()\<close>\<close>
  | MExit

datatype smonitor =
    MonWait                              \<comment> \<open>at the \<^verbatim>\<open>select\<close> of \<^verbatim>\<open>monitorProgress\<close>\<close>
  | MonSampled Progress                  \<comment> \<open>snapshot built, at the non-blocking send\<close>
  | MonExit

record scan = Scanner +
  tree :: node
  s_now :: nat
  collectSize :: bool
  dirCh :: "path chan"
  dirWG :: int
  s_workers :: "sworker list"
  s_done :: bool
  s_main :: smain
  s_monitor :: smonitor
  s_panicked :: bool

text \<open>
  The state right after \<^verbatim>\<open>ScanDirectory(path)\<close> has started its goroutines:
  \<^verbatim>\<open>s.startTime = time.Now()\<close>, the monitor is running, \<^verbatim>\<open>dirCh\<close> is made with
  \<^verbatim>\<open>dirBuf\<close> slots, \<^verbatim>\<open>dirWG\<close> counts the root, the closer goroutine and
  \<^verbatim>\<open>workerCount\<close> workers wait, and the main goroutine is about to send the root.
\<close>

definition ScanDirectory :: "Scanner \<Rightarrow> env \<Rightarrow> node \<Rightarrow> nat \<Rightarrow> path \<Rightarrow> scan" where
  "ScanDirectory sc e t tnow p =
     (let dirBuf0 = getEnvInt e ''SCANNER_DIRBUF'' 1024;
          dirBuf = (if dirBuf0 < 1 then 1 else dirBuf0)
      in Scanner.extend (sc\<lparr>startTime := tnow\<rparr>)
           (scan.fields t tnow (getEnvBool e ''SCANNER_COLLECT_SIZE'' False)
              (make_chan (nat dirBuf)) 1
              (replicate (nat (concurrency sc)) SRecv)
              False (MSendRoot p) MonWait False))"

definition set_sworker :: "nat \<Rightarrow> sworker \<Rightarrow> scan \<Rightarrow> scan" where
  "set_sworker i w s = s\<lparr>s_workers := (s_workers s)[i := w]\<rparr>"

definition s_panic :: "scan \<Rightarrow> scan" where
  "s_panic s = s\<lparr>s_panicked := True\<rparr>"

text \<open>\<^verbatim>\<open>dirWG.Done()\<close>: a negative \<^verbatim>\<open>WaitGroup\<close> counter panics.\<close>

definition wg_done :: "scan \<Rightarrow> scan" where
  "wg_done s = (if dirWG s \<le> 0 then s_panic s else s\<lparr>dirWG := dirWG s - 1\<rparr>)"

text \<open>The non-blocking send of an error, used at both error sites of the worker.\<close>

definition s_try_send_err :: "error \<Rightarrow> scan \<Rightarrow> scan" where
  "s_try_send_err e s =
     (case try_send e (errCh s) of None \<Rightarrow> s_panic s | Some ch \<Rightarrow> s\<lparr>errCh := ch\<rparr>)"

text \<open>One action of worker \<open>i\<close>, which is at program point \<open>w\<close>.\<close>

fun sworker_step :: "nat \<Rightarrow> sworker \<Rightarrow> scan \<Rightarrow> scan" where
  "sworker_step i SRecv s =
     (case buf (dirCh s) of
        d # ds \<Rightarrow> set_sworker i (SCheck d) (s\<lparr>dirCh := dequeue (dirCh s)\<rparr>)
      | [] \<Rightarrow> if closed (dirCh s) then set_sworker i SExit s else s)"
| "sworker_step i (SCheck d) s =
     set_sworker i (if canceled s then SWGDone else SReadDir d) s"
| "sworker_step i (SReadDir d) s =
     (case ReadDir (tree s) d of
        Inl e \<Rightarrow> set_sworker i (SErrDir e) s
      | Inr es \<Rightarrow> set_sworker i (SRange d es) s)"
| "sworker_step i (SErrDir e) s = set_sworker i SWGDone (s_try_send_err e s)"
| "sworker_step i SWGDone s = wg_done (set_sworker i SRecv s)"
| "sworker_step i (SRange d []) s = set_sworker i SWGDone s"
| "sworker_step i (SRange d (entry # es)) s =
     (if canceled s then set_sworker i SWGDone s
      else let entryPath = d @ [fst entry]
           in if snd entry then set_sworker i (SAdd d entryPath es) s
              else if collectSize s then set_sworker i (SLstat d entryPath es) s
              else set_sworker i (SCount \<lparr>Path = entryPath, Size = 0, Dir = d\<rparr> es) s)"
| "sworker_step i (SAdd d p es) s = set_sworker i (SPush d p es) (s\<lparr>dirWG := dirWG s + 1\<rparr>)"
| "sworker_step i (SPush d p es) s =
     (case send p (dirCh s) of
        SendPanic \<Rightarrow> s_panic s
      | Blocked \<Rightarrow> s
      | Sent ch \<Rightarrow> set_sworker i (SRange d es) (s\<lparr>dirCh := ch\<rparr>))"
| "sworker_step i (SLstat d p es) s =
     (case Lstat (tree s) p of
        Inl e \<Rightarrow> set_sworker i (SErrLstat e d es) s
      | Inr sz \<Rightarrow> set_sworker i (SCount \<lparr>Path = p, Size = sz, Dir = d\<rparr> es) s)"
| "sworker_step i (SErrLstat e d es) s = set_sworker i (SRange d es) (s_try_send_err e s)"
| "sworker_step i (SCount fi es) s =
     set_sworker i (if collectSize s then SCountSize fi es else SCheckSend fi es)
       (s\<lparr>totalFiles := wrap64 (totalFiles s + 1)\<rparr>)"
| "sworker_step i (SCountSize fi es) s =
     set_sworker i (SCheckSend fi es) (s\<lparr>totalSize := wrap64 (totalSize s + Size fi)\<rparr>)"
| "sworker_step i (SCheckSend fi es) s =
     set_sworker i (if canceled s then SRange (Dir fi) es else SSend fi es) s"
| "sworker_step i (SSend fi es) s =
     (case send fi (filesCh s) of
        SendPanic \<Rightarrow> s_panic s
      | Blocked \<Rightarrow> s
      | Sent ch \<Rightarrow> set_sworker i (SRange (Dir fi) es) (s\<lparr>filesCh := ch\<rparr>))"
| "sworker_step i SExit s = s"

text \<open>The system call worker \<open>i\<close> is about to make fails.\<close>

fun sworker_fault :: "nat \<Rightarrow> sworker \<Rightarrow> scan \<Rightarrow> scan" where
  "sworker_fault i (SReadDir d) s = set_sworker i (SErrDir (ErrReadDir d)) s"
| "sworker_fault i (SLstat d p es) s = set_sworker i (SErrLstat (ErrLstat p) d es) s"
| "sworker_fault i w s = s"

text \<open>
  The snapshot built by \<^verbatim>\<open>monitorProgress\<close> on a tick and by \<^verbatim>\<open>sendFinalProgress\<close>:
  both start from \<^verbatim>\<open>var progress Progress\<close>, load the two counters, take
  \<^verbatim>\<open>time.Since(s.startTime)\<close>, and set \<^verbatim>\<open>Speed\<close> only when the elapsed time is positive.
\<close>

definition scan_snapshot :: "scan \<Rightarrow> Progress" where
  "scan_snapshot s =
     (let elapsed = int (s_now s) - int (startTime s)
      in \<lparr>TotalFiles = totalFiles s,
          TotalSize = totalSize s,
          Speed = (if seconds elapsed > 0 then real_of_int (totalFiles s) / seconds elapsed else 0),
          ElapsedTime = elapsed\<rparr>)"

definition s_try_send_progress :: "Progress \<Rightarrow> scan \<Rightarrow> scan" where
  "s_try_send_progress p s =
     (case try_send p (progressCh s) of None \<Rightarrow> s_panic s | Some ch \<Rightarrow> s\<lparr>progressCh := ch\<rparr>)"

text \<open>\<^verbatim>\<open>Close\<close>; closing a channel twice panics.\<close>

definition Scanner_Close :: "scan \<Rightarrow> scan" where
  "Scanner_Close s =
     (if closed (progressCh s) \<or> closed (filesCh s) \<or> closed (errCh s) then s_panic s
      else s\<lparr>progressCh := close_chan (progressCh s),
             filesCh := close_chan (filesCh s),
             errCh := close_chan (errCh s)\<rparr>)"

text \<open>
  The goroutine of \<^verbatim>\<open>ScanDirectory\<close> after it has started the others.
  \<^verbatim>\<open>sendFinalProgress\<close> is two actions, as the tick of the monitor is: it builds the
  snapshot (the counters, then \<^verbatim>\<open>time.Since\<close>), and later it offers the snapshot to the
  progress channel; \<^verbatim>\<open>monitorProgress\<close>, which nobody waits for, may act in between.
\<close>

fun smain_step :: "smain \<Rightarrow> scan \<Rightarrow> scan" where
  "smain_step (MSendRoot p) s =
     (case send p (dirCh s) of
        SendPanic \<Rightarrow> s_panic s
      | Blocked \<Rightarrow> s
      | Sent ch \<Rightarrow> s\<lparr>dirCh := ch, s_main := MWait\<rparr>)"
| "smain_step MWait s =
     (if \<forall>w \<in> set (s_workers s). w = SExit then s\<lparr>s_main := MCloseDone\<rparr> else s)"
| "smain_step MCloseDone s = s\<lparr>s_done := True, s_main := MFinal\<rparr>"
| "smain_step MFinal s = s\<lparr>s_main := MFinalSend (scan_snapshot s)\<rparr>"
| "smain_step (MFinalSend p) s = (s_try_send_progress p s)\<lparr>s_main := MClose\<rparr>"
| "smain_step MClose s = (Scanner_Close s)\<lparr>s_main := MExit\<rparr>"
| "smain_step MExit s = s"

text \<open>
  \<^verbatim>\<open>monitorProgress\<close>: the ticker case in two actions (the snapshot is built, the
  snapshot is offered to the progress channel), and the \<^verbatim>\<open>done\<close> case.  Building a
  snapshot reads the two counters and then the clock; each of the three only grows
  and no goroutine waits for the snapshot, so they are read in one action.
\<close>

fun smonitor_step :: "event \<Rightarrow> smonitor \<Rightarrow> scan \<Rightarrow> scan" where
  "smonitor_step MonTick MonWait s = s\<lparr>s_monitor := MonSampled (scan_snapshot s)\<rparr>"
| "smonitor_step MonSend (MonSampled p) s = (s_try_send_progress p s)\<lparr>s_monitor := MonWait\<rparr>"
| "smonitor_step MonDone MonWait s = (if s_done s then s\<lparr>s_monitor := MonExit\<rparr> else s)"
| "smonitor_step e m s = s"

definition Scanner_Cancel :: "'a Scanner_scheme \<Rightarrow> 'a Scanner_scheme" where
  "Scanner_Cancel s = s\<lparr>canceled := True\<rparr>"

text \<open>One event.  After a panic the process is gone: nothing moves.\<close>

fun scan_event :: "event \<Rightarrow> scan \<Rightarrow> scan" where
  "scan_event (Worker i) s =
     (if i < length (s_workers s) then sworker_step i (s_workers s ! i) s else s)"
| "scan_event (Fault i) s =
     (if i < length (s_workers s) then sworker_fault i (s_workers s ! i) s else s)"
| "scan_event Cancel s = Scanner_Cancel s"
| "scan_event (Clock d) s = s\<lparr>s_now := s_now s + d\<rparr>"
| "scan_event MainStep s = smain_step (s_main s) s"
| "scan_event Closer s =
     (if dirWG s = 0 \<and> \<not> closed (dirCh s) then s\<lparr>dirCh := close_chan (dirCh s)\<rparr> else s)"
| "scan_event RecvFile s = s\<lparr>filesCh := recv (filesCh s)\<rparr>"
| "scan_event RecvErr s = s\<lparr>errCh := recv (errCh s)\<rparr>"
| "scan_event RecvProgress s = s\<lparr>progressCh := recv (progressCh s)\<rparr>"
| "scan_event RecvResult s = s"
| "scan_event e s = smonitor_step e (s_monitor s) s"

definition scan_step :: "event \<Rightarrow> scan \<Rightarrow> scan" where
  "scan_step e s = (if s_panicked s then s else scan_event e s)"

text \<open>A schedule, run from a state.\<close>

definition scan_run :: "event list \<Rightarrow> scan \<Rightarrow> scan" where
  "scan_run sched s = fold scan_step sched s"

section \<open>Package copier\<close>

subsection \<open>Paths and file-system calls\<close>

text \<open>
  \<^verbatim>\<open>filepath.Rel\<close> on cleaned absolute paths: drop the common prefix, climb out of what
  is left of the base with \<^verbatim>\<open>..\<close>, then descend.  The only error left for such paths
  is a base whose remainder starts with \<^verbatim>\<open>..\<close>.  The result \<^verbatim>\<open>"."\<close> is \<open>[]\<close>.
\<close>

fun strip_common :: "path \<Rightarrow> path \<Rightarrow> path \<times> path" where
  "strip_common (x # xs) (y # ys) = (if x = y then strip_common xs ys else (x # xs, y # ys))"
| "strip_common xs ys = (xs, ys)"

definition Rel :: "path \<Rightarrow> path \<Rightarrow> error + path" where
  "Rel base targ =
     (case strip_common base targ of
        (b, t) \<Rightarrow> if b \<noteq> [] \<and> hd b = ''..'' then Inl (ErrRel targ)
                  else Inr (replicate (length b) ''..'' @ t))"

text \<open>\<^verbatim>\<open>filepath.Join(t, rel)\<close>: append and clean, so \<^verbatim>\<open>..\<close> removes the last component.\<close>

fun Join :: "path \<Rightarrow> path \<Rightarrow> path" where
  "Join t [] = t"
| "Join t (x # xs) = (if x = ''..'' then Join (butlast t) xs else Join (t @ [x]) xs)"

fun update_entry :: "string \<Rightarrow> node \<Rightarrow> (string \<times> node) list \<Rightarrow> (string \<times> node) list" where
  "update_entry x m [] = [(x, m)]"
| "update_entry x m (e # es) = (if fst e = x then (x, m) # es else e # update_entry x m es)"

text \<open>
  \<^verbatim>\<open>os.MkdirAll\<close>: nothing to do for an existing directory, an error (\<open>None\<close>) when a
  component of the path is a file, otherwise the missing directories are created.
\<close>

fun MkdirAll :: "node \<Rightarrow> path \<Rightarrow> node option" where
  "MkdirAll n [] = (case n of File c \<Rightarrow> None | Directory es \<Rightarrow> Some n)"
| "MkdirAll n (x # xs) =
     (case n of
        File c \<Rightarrow> None
      | Directory es \<Rightarrow>
          (case MkdirAll (case map_of es x of None \<Rightarrow> Directory [] | Some m \<Rightarrow> m) xs of
             None \<Rightarrow> None
           | Some m' \<Rightarrow> Some (Directory (update_entry x m' es))))"

text \<open>
  Storing the bytes \<open>c\<close> as the file at a path: its parent must be a directory and
  the path itself must not be one.
\<close>

fun put_file :: "node \<Rightarrow> path \<Rightarrow> byte list \<Rightarrow> node option" where
  "put_file n [] c = (case n of File c0 \<Rightarrow> Some (File c) | Directory es \<Rightarrow> None)"
| "put_file n (x # xs) c =
     (case n of
        File c0 \<Rightarrow> None
      | Directory es \<Rightarrow>
          (case map_of es x of
             None \<Rightarrow> if xs = [] then Some (Directory (update_entry x (File c) es)) else None
           | Some m \<Rightarrow>
               (case put_file m xs c of
                  None \<Rightarrow> None
                | Some m' \<Rightarrow> Some (Directory (update_entry x m' es)))))"

text \<open>\<^verbatim>\<open>os.Create\<close>: the file is created, or truncated when it exists.\<close>

definition Create :: "node \<Rightarrow> path \<Rightarrow> node option" where
  "Create t p = put_file t p []"

text \<open>
  \<^verbatim>\<open>File.Read\<close> of at most \<open>n\<close> bytes at offset \<open>off\<close>; the empty chunk is \<^verbatim>\<open>io.EOF\<close>.
  Reading a directory is an error.
\<close>

definition Read :: "node \<Rightarrow> path \<Rightarrow> nat \<Rightarrow> nat \<Rightarrow> error + byte list" where
  "Read t p off n =
     (case lookup t p of Some (File c) \<Rightarrow> Inr (take n (drop off c)) | _ \<Rightarrow> Inl (ErrRead p))"

text \<open>
  \<^verbatim>\<open>File.Write\<close> of a chunk at offset \<open>off\<close>: bytes behind the chunk stay, a gap before
  it (the file was truncated meanwhile) reads as zeros.
\<close>

definition Write :: "node \<Rightarrow> path \<Rightarrow> nat \<Rightarrow> byte list \<Rightarrow> node option" where
  "Write t p off chunk =
     (case lookup t p of
        Some (File c) \<Rightarrow>
          put_file t p (take off (c @ replicate (off - length c) 0) @ chunk
                          @ drop (off + length chunk) c)
      | _ \<Rightarrow> None)"

text \<open>
  \<^verbatim>\<open>filepath.WalkDir\<close>, restricted to what the callback of \<^verbatim>\<open>ensureAllDirectories\<close> does:
  the callback runs on a directory, then the directory is listed (as it is at that
  moment) and its sub-directories are walked in turn; on files the callback does
  nothing.  \<open>k\<close> bounds the depth: below it the operating system refuses the path
  (\<^verbatim>\<open>ENAMETOOLONG\<close>), the callback gets the error and returns \<^verbatim>\<open>nil\<close>.
\<close>

fun walkDir :: "nat \<Rightarrow> (path \<Rightarrow> node \<Rightarrow> node) \<Rightarrow> path \<Rightarrow> node \<Rightarrow> node"
  and walkEntries :: "nat \<Rightarrow> (path \<Rightarrow> node \<Rightarrow> node) \<Rightarrow> path \<Rightarrow> DirEntry list \<Rightarrow> node \<Rightarrow> node"
  where
  "walkDir 0 fn p t = fn p t"
| "walkDir (Suc k) fn p t =
     (let t1 = fn p t
      in case ReadDir t1 p of Inl e \<Rightarrow> t1 | Inr es \<Rightarrow> walkEntries k fn p es t1)"
| "walkEntries k fn p [] t = t"
| "walkEntries k fn p (e # es) t =
     walkEntries k fn p es (if snd e then walkDir k fn (p @ [fst e]) t else t)"

subsection \<open>The copier\<close>

record CopyProgress =
  CompletedFiles :: int
  CompletedSize :: int
  CurrentFile :: string
  TotalFiles :: int
  TotalSize :: int
  FailedFiles :: int
  SkippedFiles :: int
  Speed :: real
  ElapsedTime :: int
  RemainingTime :: int

record CopyResult =
  FilePath :: path
  Success :: bool
  Error :: "error option"
  Size :: int

record Copier =
  sourceDir :: path
  targetDir :: path
  progress :: CopyProgress
  progressCh :: "CopyProgress chan"
  resultCh :: "CopyResult chan"
  errCh :: "error chan"
  useAPFSClone :: bool
  workerCount :: int
  startTime :: nat
  tickInterval :: int
  canceled :: bool
  bufferSize :: int

text \<open>\<^verbatim>\<open>NewCopier\<close>; \<open>ncpu\<close> is \<^verbatim>\<open>runtime.NumCPU()\<close>, \<open>t\<close> is \<^verbatim>\<open>time.Now()\<close>.\<close>

definition NewCopier :: "path \<Rightarrow> path \<Rightarrow> bool \<Rightarrow> int \<Rightarrow> nat \<Rightarrow> Copier" where
  "NewCopier src tgt apfs ncpu t =
     (let workers = (if ncpu > 8 then 8 else ncpu);
          tickMs = (if (500::int) < 100 then 100 else 500)
      in \<lparr>sourceDir = src,
          targetDir = tgt,
          progress = \<lparr>CompletedFiles = 0, CompletedSize = 0, CurrentFile = [], TotalFiles = 0,
                       TotalSize = 0, FailedFiles = 0, SkippedFiles = 0, Speed = 0,
                       ElapsedTime = 0, RemainingTime = 0\<rparr>,
          progressCh = make_chan 100,
          resultCh = make_chan 1000,
          errCh = make_chan 100,
          useAPFSClone = apfs,
          workerCount = workers,
          startTime = t,
          tickInterval = tickMs * 1000000,
          canceled = False,
          bufferSize = 1 * 1024 * 1024\<rparr>)"

definition SetTotal :: "int \<Rightarrow> int \<Rightarrow> 'a Copier_scheme \<Rightarrow> 'a Copier_scheme" where
  "SetTotal n sz c = c\<lparr>progress := (progress c)\<lparr>TotalFiles := n, TotalSize := sz\<rparr>\<rparr>"

definition SetWorkerCount :: "int \<Rightarrow> 'a Copier_scheme \<Rightarrow> 'a Copier_scheme" where
  "SetWorkerCount n c = (if n < 1 then c else c\<lparr>workerCount := n\<rparr>)"

definition SetBufferSizeMB :: "int \<Rightarrow> 'a Copier_scheme \<Rightarrow> 'a Copier_scheme" where
  "SetBufferSizeMB mb c = (if mb \<le> 0 then c else c\<lparr>bufferSize := mb * 1024 * 1024\<rparr>)"

definition Copier_Cancel :: "'a Copier_scheme \<Rightarrow> 'a Copier_scheme" where
  "Copier_Cancel c = c\<lparr>canceled := True\<rparr>"

text \<open>The program points of one copy worker (\<^verbatim>\<open>copyWorker\<close>, with \<^verbatim>\<open>copySingleFile\<close> and
  \<^verbatim>\<open>copyFileContent\<close> inlined), each with its live local variables.\<close>

datatype cworker =
    WRecv                                \<comment> \<open>\<^verbatim>\<open>for srcPath := range fileChan\<close>\<close>
  | WCheck path                          \<comment> \<open>\<^verbatim>\<open>if atomic.LoadInt32(&c.canceled) == 1 { return }\<close>\<close>
  | WMkdirAll path path                  \<comment> \<open>\<^verbatim>\<open>os.MkdirAll(dstDir, 0755)\<close>\<close>
  | WStat path path                      \<comment> \<open>\<^verbatim>\<open>info, err := os.Stat(srcPath)\<close>\<close>
  | WOpen path path int                  \<comment> \<open>\<^verbatim>\<open>sourceFile, err := os.Open(srcPath)\<close>\<close>
  | WCreate path path int                \<comment> \<open>\<^verbatim>\<open>targetFile, err := os.Create(dstPath)\<close>\<close>
  | WLoop path path int nat              \<comment> \<open>\<^verbatim>\<open>if atomic.LoadInt32(&c.canceled) == 1\<close> in the loop\<close>
  | WRead path path int nat              \<comment> \<open>\<^verbatim>\<open>n, rerr := sourceFile.Read(buffer)\<close>\<close>
  | WWrite path path int nat "byte list" \<comment> \<open>\<^verbatim>\<open>targetFile.Write(buffer[:n])\<close>\<close>
  | WSend CopyResult                     \<comment> \<open>\<^verbatim>\<open>c.resultCh <- result\<close>\<close>
  | WUpdate CopyResult                   \<comment> \<open>the counters, under \<^verbatim>\<open>progressMux\<close>\<close>
  | WExit                                \<comment> \<open>\<^verbatim>\<open>wg.Done()\<close>, returned\<close>

datatype cmain =
    CStart                               \<comment> \<open>the goroutine of \<^verbatim>\<open>CopyFilesParallel\<close> begins\<close>
  | CWait                                \<comment> \<open>\<^verbatim>\<open>wg.Wait()\<close>\<close>
  | CCloseDone                           \<comment> \<open>\<^verbatim>\<open>close(done)\<close>\<close>
  | CFinal                               \<comment> \<open>\<^verbatim>\<open>c.sendFinalProgress()\<close>\<close>
  | CClose                               \<comment> \<open>deferred \<^verbatim>\<open>c.Close()\<close>\<close>
  | CExit

datatype cmonitor =
    CMonOff                              \<comment> \<open>\<^verbatim>\<open>monitorProgress\<close> not started\<close>
  | CMonWait                             \<comment> \<open>at its \<^verbatim>\<open>select\<close>\<close>
  | CMonSampled CopyProgress             \<comment> \<open>snapshot built, at the non-blocking send\<close>
  | CMonExit

text \<open>
  The state of a copy run: the struct, the file system, the clock, the arguments and
  local variables of \<^verbatim>\<open>CopyFilesParallel\<close>, and the program counters.  \<open>attempted\<close> is a
  history variable, the files for which \<^verbatim>\<open>copySingleFile\<close> has been called, in order;
  no step reads it.
\<close>

record copy = Copier +
  fs :: node
  c_now :: nat
  path_max :: nat
  files :: "path list"
  fileChan :: "path chan"
  c_workers :: "cworker list"
  c_done :: bool
  c_main :: cmain
  c_monitor :: cmonitor
  c_panicked :: bool
  attempted :: "path list"

text \<open>
  The callback of \<^verbatim>\<open>ensureAllDirectories\<close> on a directory \<open>p\<close>: the mirrored directory is
  created; an error of \<^verbatim>\<open>filepath.Rel\<close> or \<^verbatim>\<open>os.MkdirAll\<close> is ignored.
\<close>

definition ensure_dir :: "path \<Rightarrow> path \<Rightarrow> path \<Rightarrow> node \<Rightarrow> node" where
  "ensure_dir src tgt p t =
     (case Rel src p of
        Inl e \<Rightarrow> t
      | Inr rel \<Rightarrow>
          (let dst = (if rel = [] then tgt else Join tgt rel)
           in case MkdirAll t dst of None \<Rightarrow> t | Some t' \<Rightarrow> t'))"

definition ensureAllDirectories :: "copy \<Rightarrow> copy" where
  "ensureAllDirectories s =
     (case lookup (fs s) (sourceDir s) of
        Some (Directory es) \<Rightarrow>
          s\<lparr>fs := walkDir (path_max s - length (sourceDir s))
                       (ensure_dir (sourceDir s) (targetDir s)) (sourceDir s) (fs s)\<rparr>
      | _ \<Rightarrow> s)"

text \<open>
  The state when the goroutine of \<^verbatim>\<open>CopyFilesParallel(files)\<close> has been launched and has
  not run yet.  \<open>t\<close> is the file system, \<open>tnow\<close> the clock, \<open>pmax\<close> the longest path
  (in components) the operating system accepts.
\<close>

definition CopyFilesParallel :: "Copier \<Rightarrow> node \<Rightarrow> nat \<Rightarrow> nat \<Rightarrow> path list \<Rightarrow> copy" where
  "CopyFilesParallel c t tnow pmax fl =
     Copier.extend c (copy.fields t tnow pmax fl (make_chan 0) [] False CStart CMonOff False [])"

definition set_cworker :: "nat \<Rightarrow> cworker \<Rightarrow> copy \<Rightarrow> copy" where
  "set_cworker i w s = s\<lparr>c_workers := (c_workers s)[i := w]\<rparr>"

definition c_panic :: "copy \<Rightarrow> copy" where
  "c_panic s = s\<lparr>c_panicked := True\<rparr>"

text \<open>\<^verbatim>\<open>bufSize := c.bufferSize; if bufSize <= 0 { bufSize = 1 * 1024 * 1024 }\<close>\<close>

definition buffer_len :: "copy \<Rightarrow> nat" where
  "buffer_len s = (if bufferSize s \<le> 0 then 1 * 1024 * 1024 else nat (bufferSize s))"

text \<open>The three shapes of \<^verbatim>\<open>CopyResult\<close> that \<^verbatim>\<open>copySingleFile\<close> returns.\<close>

definition failed :: "path \<Rightarrow> error \<Rightarrow> int \<Rightarrow> CopyResult" where
  "failed src e sz = \<lparr>FilePath = src, Success = False, Error = Some e, Size = sz\<rparr>"

definition succeeded :: "path \<Rightarrow> int \<Rightarrow> CopyResult" where
  "succeeded src sz = \<lparr>FilePath = src, Success = True, Error = None, Size = sz\<rparr>"

text \<open>One action of copy worker \<open>i\<close>, which is at program point \<open>w\<close>.\<close>

fun cworker_step :: "nat \<Rightarrow> cworker \<Rightarrow> copy \<Rightarrow> copy" where
  "cworker_step i WRecv s =
     (case buf (fileChan s) of
        f # fl \<Rightarrow> set_cworker i (WCheck f) (s\<lparr>fileChan := dequeue (fileChan s)\<rparr>)
      | [] \<Rightarrow> if closed (fileChan s) then set_cworker i WExit s else s)"
| "cworker_step i (WCheck src) s =
     (if canceled s then set_cworker i WExit s
      else case Rel (sourceDir s) src of
             Inl e \<Rightarrow>
               set_cworker i (WSend (failed src e 0)) (s\<lparr>attempted := attempted s @ [src]\<rparr>)
           | Inr rel \<Rightarrow>
               set_cworker i (WMkdirAll src (Join (targetDir s) rel))
                 (s\<lparr>attempted := attempted s @ [src]\<rparr>))"
| "cworker_step i (WMkdirAll src dst) s =
     (case MkdirAll (fs s) (butlast dst) of
        None \<Rightarrow> set_cworker i (WSend (failed src (ErrMkdirAll (butlast dst)) 0)) s
      | Some t \<Rightarrow> set_cworker i (WStat src dst) (s\<lparr>fs := t\<rparr>))"
| "cworker_step i (WStat src dst) s =
     (case lookup (fs s) src of
        None \<Rightarrow> set_cworker i (WSend (failed src (ErrStat src) 0)) s
      | Some n \<Rightarrow> set_cworker i (WOpen src dst (node_size n)) s)"
| "cworker_step i (WOpen src dst sz) s =
     (case lookup (fs s) src of
        None \<Rightarrow> set_cworker i (WSend (failed src (ErrOpen src) sz)) s
      | Some n \<Rightarrow> set_cworker i (WCreate src dst sz) s)"
| "cworker_step i (WCreate src dst sz) s =
     (case Create (fs s) dst of
        None \<Rightarrow> set_cworker i (WSend (failed src (ErrCreate dst) sz)) s
      | Some t \<Rightarrow> set_cworker i (WLoop src dst sz 0) (s\<lparr>fs := t\<rparr>))"
| "cworker_step i (WLoop src dst sz off) s =
     (if canceled s then set_cworker i (WSend (failed src ErrCanceled sz)) s
      else set_cworker i (WRead src dst sz off) s)"
| "cworker_step i (WRead src dst sz off) s =
     (case Read (fs s) src off (buffer_len s) of
        Inl e \<Rightarrow> set_cworker i (WSend (failed src e sz)) s
      | Inr chunk \<Rightarrow>
          if chunk = [] then set_cworker i (WSend (succeeded src sz)) s
          else set_cworker i (WWrite src dst sz off chunk) s)"
| "cworker_step i (WWrite src dst sz off chunk) s =
     (case Write (fs s) dst off chunk of
        None \<Rightarrow> set_cworker i (WSend (failed src (ErrWrite dst) sz)) s
      | Some t \<Rightarrow> set_cworker i (WLoop src dst sz (off + length chunk)) (s\<lparr>fs := t\<rparr>))"
| "cworker_step i (WSend r) s =
     (case send r (resultCh s) of
        SendPanic \<Rightarrow> c_panic s
      | Blocked \<Rightarrow> s
      | Sent ch \<Rightarrow> set_cworker i (WUpdate r) (s\<lparr>resultCh := ch\<rparr>))"
| "cworker_step i (WUpdate r) s =
     set_cworker i WRecv
       (if Success r
        then s\<lparr>progress := (progress s)\<lparr>CompletedFiles := CompletedFiles (progress s) + 1,
                                         CompletedSize := CompletedSize (progress s) + Size r\<rparr>\<rparr>
        else s\<lparr>progress := (progress s)\<lparr>FailedFiles := FailedFiles (progress s) + 1\<rparr>\<rparr>)"
| "cworker_step i WExit s = s"

text \<open>
  The system call worker \<open>i\<close> is about to make fails.  (A failed write is taken to
  have written nothing.)
\<close>

fun cworker_fault :: "nat \<Rightarrow> cworker \<Rightarrow> copy \<Rightarrow> copy" where
  "cworker_fault i (WMkdirAll src dst) s =
     set_cworker i (WSend (failed src (ErrMkdirAll (butlast dst)) 0)) s"
| "cworker_fault i (WStat src dst) s = set_cworker i (WSend (failed src (ErrStat src) 0)) s"
| "cworker_fault i (WOpen src dst sz) s = set_cworker i (WSend (failed src (ErrOpen src) sz)) s"
| "cworker_fault i (WCreate src dst sz) s = set_cworker i (WSend (failed src (ErrCreate dst) sz)) s"
| "cworker_fault i (WRead src dst sz off) s = set_cworker i (WSend (failed src (ErrRead src) sz)) s"
| "cworker_fault i (WWrite src dst sz off chunk) s =
     set_cworker i (WSend (failed src (ErrWrite dst) sz)) s"
| "cworker_fault i w s = s"

text \<open>
  What \<^verbatim>\<open>monitorProgress\<close> and \<^verbatim>\<open>sendFinalProgress\<close> share: a copy of the aggregate struct
  taken under the mutex, the elapsed time, and the speed when the elapsed time is
  positive.
\<close>

definition progress_now :: "copy \<Rightarrow> CopyProgress" where
  "progress_now s =
     (let elapsed = int (c_now s) - int (startTime s);
          p = (progress s)\<lparr>ElapsedTime := elapsed\<rparr>
      in if seconds elapsed > 0
         then p\<lparr>Speed := real_of_int (CompletedFiles p) / seconds elapsed\<rparr>
         else p)"

text \<open>The tick of \<^verbatim>\<open>monitorProgress\<close> also estimates the remaining time.\<close>

definition tick_snapshot :: "copy \<Rightarrow> CopyProgress" where
  "tick_snapshot s =
     (let p = progress_now s
      in if Speed p > 0 \<and> TotalFiles p > CompletedFiles p
         then p\<lparr>RemainingTime :=
                  \<lfloor>real_of_int (TotalFiles p - CompletedFiles p) / Speed p\<rfloor> * 1000000000\<rparr>
         else p)"

definition c_try_send_progress :: "CopyProgress \<Rightarrow> copy \<Rightarrow> copy" where
  "c_try_send_progress p s =
     (case try_send p (progressCh s) of None \<Rightarrow> c_panic s | Some ch \<Rightarrow> s\<lparr>progressCh := ch\<rparr>)"

definition Copier_sendFinalProgress :: "copy \<Rightarrow> copy" where
  "Copier_sendFinalProgress s = c_try_send_progress (progress_now s) s"

definition Copier_Close :: "copy \<Rightarrow> copy" where
  "Copier_Close s =
     (if closed (progressCh s) \<or> closed (resultCh s) \<or> closed (errCh s) then c_panic s
      else s\<lparr>progressCh := close_chan (progressCh s),
             resultCh := close_chan (resultCh s),
             errCh := close_chan (errCh s)\<rparr>)"

text \<open>\<^verbatim>\<open>os.Stat(file)\<close> in the loop that adds up \<^verbatim>\<open>totalSize\<close>: a missing file adds nothing.\<close>

definition stat_size :: "node \<Rightarrow> path \<Rightarrow> int" where
  "stat_size t p = (case lookup t p of None \<Rightarrow> 0 | Some n \<Rightarrow> node_size n)"

text \<open>
  The goroutine of \<^verbatim>\<open>CopyFilesParallel\<close>.  \<open>CStart\<close> is everything up to \<^verbatim>\<open>wg.Wait()\<close>: no
  other goroutine of the copier runs before the workers are started, and sending
  the files into a channel of capacity \<^verbatim>\<open>len(files)\<close> never blocks, so the workers
  find the queue filled and closed.  With no files the goroutine returns at once.
\<close>

fun cmain_step :: "cmain \<Rightarrow> copy \<Rightarrow> copy" where
  "cmain_step CStart s =
     (if length (files s) = 0 then s\<lparr>c_main := CClose\<rparr>
      else let s1 = ensureAllDirectories s;
               total = sum_list (map (stat_size (fs s1)) (files s))
           in s1\<lparr>progress := (progress s1)\<lparr>TotalFiles := int (length (files s)),
                                             TotalSize := total\<rparr>,
                  fileChan := \<lparr>cap = length (files s), buf = files s, closed = True,
                                hist = files s, receivers = 0\<rparr>,
                  c_workers := replicate (nat (workerCount s)) WRecv,
                  c_monitor := CMonWait,
                  c_main := CWait\<rparr>)"
| "cmain_step CWait s =
     (if \<forall>w \<in> set (c_workers s). w = WExit then s\<lparr>c_main := CCloseDone\<rparr> else s)"
| "cmain_step CCloseDone s = s\<lparr>c_done := True, c_main := CFinal\<rparr>"
| "cmain_step CFinal s = (Copier_sendFinalProgress s)\<lparr>c_main := CClose\<rparr>"
| "cmain_step CClose s = (Copier_Close s)\<lparr>c_main := CExit\<rparr>"
| "cmain_step CExit s = s"

fun cmonitor_step :: "event \<Rightarrow> cmonitor \<Rightarrow> copy \<Rightarrow> copy" where
  "cmonitor_step MonTick CMonWait s = s\<lparr>c_monitor := CMonSampled (tick_snapshot s)\<rparr>"
| "cmonitor_step MonSend (CMonSampled p) s = (c_try_send_progress p s)\<lparr>c_monitor := CMonWait\<rparr>"
| "cmonitor_step MonDone CMonWait s = (if c_done s then s\<lparr>c_monitor := CMonExit\<rparr> else s)"
| "cmonitor_step e m s = s"

fun copy_event :: "event \<Rightarrow> copy \<Rightarrow> copy" where
  "copy_event (Worker i) s =
     (if i < length (c_workers s) then cworker_step i (c_workers s ! i) s else s)"
| "copy_event (Fault i) s =
     (if i < length (c_workers s) then cworker_fault i (c_workers s ! i) s else s)"
| "copy_event Cancel s = Copier_Cancel s"
| "copy_event (Clock d) s = s\<lparr>c_now := c_now s + d\<rparr>"
| "copy_event MainStep s = cmain_step (c_main s) s"
| "copy_event RecvResult s = s\<lparr>resultCh := recv (resultCh s)\<rparr>"
| "copy_event RecvErr s = s\<lparr>errCh := recv (errCh s)\<rparr>"
| "copy_event RecvProgress s = s\<lparr>progressCh := recv (progressCh s)\<rparr>"
| "copy_event Closer s = s"
| "copy_event RecvFile s = s"
| "copy_event e s = cmonitor_step e (c_monitor s) s"

definition copy_step :: "event \<Rightarrow> copy \<Rightarrow> copy" where
  "copy_step e s = (if c_panicked s then s else copy_event e s)"

definition copy_run :: "event list \<Rightarrow> copy \<Rightarrow> copy" where
  "copy_run sched s = fold copy_step sched s"

section \<open>Invariants of the scanner\<close>

text \<open>
  The files a worker still has to emit, read off its program point: the files
  below the directory it holds, or those of the entries it has not processed yet.
\<close>

definition entry_files :: "node \<Rightarrow> path \<Rightarrow> DirEntry \<Rightarrow> int" where
  "entry_files t d e = (if snd e then int (files_under t (d @ [fst e])) else 1)"

definition entries_files :: "node \<Rightarrow> path \<Rightarrow> DirEntry list \<Rightarrow> int" where
  "entries_files t d es = sum_list (map (entry_files t d) es)"

fun pending :: "node \<Rightarrow> sworker \<Rightarrow> int" where
  "pending t SRecv = 0"
| "pending t (SCheck d) = int (files_under t d)"
| "pending t (SReadDir d) = int (files_under t d)"
| "pending t (SErrDir e) = 0"
| "pending t SWGDone = 0"
| "pending t (SRange d es) = entries_files t d es"
| "pending t (SAdd d p es) = int (files_under t p) + entries_files t d es"
| "pending t (SPush d p es) = int (files_under t p) + entries_files t d es"
| "pending t (SLstat d p es) = 1 + entries_files t d es"
| "pending t (SErrLstat e d es) = entries_files t d es"
| "pending t (SCount fi es) = 1 + entries_files t (Dir fi) es"
| "pending t (SCountSize fi es) = 1 + entries_files t (Dir fi) es"
| "pending t (SCheckSend fi es) = 1 + entries_files t (Dir fi) es"
| "pending t (SSend fi es) = 1 + entries_files t (Dir fi) es"
| "pending t SExit = 0"

fun lstat_ok :: "node \<Rightarrow> sworker \<Rightarrow> bool" where
  "lstat_ok t (SReadDir d) = True"
| "lstat_ok t (SRange d es) = (\<forall>e \<in> set es. lookup t (d @ [fst e]) \<noteq> None)"
| "lstat_ok t (SAdd d p es) = (\<forall>e \<in> set es. lookup t (d @ [fst e]) \<noteq> None)"
| "lstat_ok t (SPush d p es) = (\<forall>e \<in> set es. lookup t (d @ [fst e]) \<noteq> None)"
| "lstat_ok t (SLstat d p es) = (lookup t p \<noteq> None \<and> (\<forall>e \<in> set es. lookup t (d @ [fst e]) \<noteq> None))"
| "lstat_ok t (SErrLstat e d es) = (\<forall>e \<in> set es. lookup t (d @ [fst e]) \<noteq> None)"
| "lstat_ok t (SCount fi es) = (\<forall>e \<in> set es. lookup t (Dir fi @ [fst e]) \<noteq> None)"
| "lstat_ok t (SCountSize fi es) = (\<forall>e \<in> set es. lookup t (Dir fi @ [fst e]) \<noteq> None)"
| "lstat_ok t (SCheckSend fi es) = (\<forall>e \<in> set es. lookup t (Dir fi @ [fst e]) \<noteq> None)"
| "lstat_ok t (SSend fi es) = (\<forall>e \<in> set es. lookup t (Dir fi @ [fst e]) \<noteq> None)"
| "lstat_ok t w = True"

definition main_pending :: "node \<Rightarrow> smain \<Rightarrow> int" where
  "main_pending t m = (case m of MSendRoot p \<Rightarrow> int (files_under t p) | _ \<Rightarrow> 0)"

definition scan_total :: "scan \<Rightarrow> int" where
  "scan_total s =
     int (length (hist (filesCh s))) + int (sum_list (map (files_under (tree s)) (buf (dirCh s))))
       + sum_list (map (pending (tree s)) (s_workers s)) + main_pending (tree s) (s_main s)"


text \<open>
  \<open>inv_ok\<close>: every entry a worker still holds exists in the tree, and the directory
  queue is buffered (\<^verbatim>\<open>dirBuf\<close> is at least 1).
  \<open>inv_count\<close>: unless the scan was cancelled, the files already emitted plus the files
  still to be emitted are the files of the tree.
  \<open>inv_exit\<close>: a worker returns only from a closed, drained directory queue, and the
  main goroutine passes \<^verbatim>\<open>workers.Wait()\<close> (it has \<open>joined\<close> the workers) only when
  every worker has returned.
  \<open>no_fault\<close>: no system call of the schedule fails.
\<close>

definition inv_ok :: "scan \<Rightarrow> bool" where
  "inv_ok s \<longleftrightarrow>
     wf_node (tree s) \<and> (\<forall>w \<in> set (s_workers s). lstat_ok (tree s) w) \<and> 0 < cap (dirCh s)"

definition inv_count :: "path \<Rightarrow> scan \<Rightarrow> bool" where
  "inv_count rt s \<longleftrightarrow> Scanner.canceled s \<or> scan_total s = int (files_under (tree s) rt)"

definition joined :: "smain \<Rightarrow> bool" where
  "joined m = (case m of MSendRoot p \<Rightarrow> False | MWait \<Rightarrow> False | _ \<Rightarrow> True)"

definition inv_exit :: "scan \<Rightarrow> bool" where
  "inv_exit s \<longleftrightarrow>
     s_workers s \<noteq> [] \<and>
     ((\<exists>w \<in> set (s_workers s). w = SExit) \<longrightarrow> buf (dirCh s) = [] \<and> closed (dirCh s)) \<and>
     (joined (s_main s) \<longrightarrow> (\<forall>w \<in> set (s_workers s). w = SExit))"

definition no_fault :: "event list \<Rightarrow> bool" where
  "no_fault sched = list_all (\<lambda>e. case e of Fault i \<Rightarrow> False | _ \<Rightarrow> True) sched"


section \<open>Concrete runs\<close>

text \<open>No variable of the environment is set: every default of the code applies.\<close>

definition default_env :: env where
  "default_env = \<lparr>env_int = (\<lambda>k. None), env_bool = (\<lambda>k. None)\<rparr>"

text \<open>
  The tree of the example scenario: \<^verbatim>\<open>/src\<close> holds \<^verbatim>\<open>x.txt\<close> (3 bytes), \<^verbatim>\<open>sub/y.txt\<close>
  (0 bytes) and the empty directory \<^verbatim>\<open>sub/empty\<close>.
\<close>

definition example_tree :: node where
  "example_tree =
     Directory [(''src'', Directory [(''x.txt'', File [1, 2, 3]),
                                     (''sub'', Directory [(''y.txt'', File []),
                                                          (''empty'', Directory [])])])]"

text \<open>
  On one CPU \<^verbatim>\<open>NewScanner\<close> starts 8 workers.  In the schedules below worker 0 does all
  the work; once the directory queue is closed each worker takes one step to return,
  and the main goroutine takes five to close the streams.
\<close>

definition all_workers_exit :: "event list" where
  "all_workers_exit =
     [Worker 0, Worker 1, Worker 2, Worker 3, Worker 4, Worker 5, Worker 6, Worker 7]"

definition finish :: "event list" where
  "finish = [MainStep, MainStep, MainStep, MainStep, MainStep]"

definition example_scan_schedule :: "event list" where
  "example_scan_schedule =
     MainStep # replicate 40 (Worker 0) @ [Closer] @ all_workers_exit @ finish"

definition example_scan :: scan where
  "example_scan =
     scan_run example_scan_schedule
       (ScanDirectory (the (NewScanner default_env 1 0)) default_env example_tree 0 [''src''])"

text \<open>
  A tree whose directory \<^verbatim>\<open>/src/d\<close> holds one file, and a schedule in which
  \<^verbatim>\<open>os.ReadDir("/src/d")\<close> fails (the directory is not readable).
\<close>

definition locked_tree :: node where
  "locked_tree = Directory [(''src'', Directory [(''d'', Directory [(''f.txt'', File [1])])])]"

definition locked_schedule :: "event list" where
  "locked_schedule =
     MainStep # replicate 10 (Worker 0) @ [Fault 0, Worker 0, Worker 0, Closer]
       @ all_workers_exit @ finish"

definition locked_scan :: scan where
  "locked_scan =
     scan_run locked_schedule
       (ScanDirectory (the (NewScanner default_env 1 0)) default_env locked_tree 0 [''src''])"

text \<open>
  The bytes of the files in a tree and below the directory at a path, and what a
  worker has not yet added to the two counters, read off its program point:
  \<open>uncounted\<close> for \<^verbatim>\<open>totalFiles\<close>, \<open>unsized\<close> for \<^verbatim>\<open>totalSize\<close>.
\<close>

fun total_bytes :: "node \<Rightarrow> nat" where
  "total_bytes (File c) = length c"
| "total_bytes (Directory es) = sum_list (map (\<lambda>e. total_bytes (snd e)) es)"

definition bytes_under :: "node \<Rightarrow> path \<Rightarrow> nat" where
  "bytes_under t p =
     (case lookup t p of Some (Directory es) \<Rightarrow> total_bytes (Directory es) | _ \<Rightarrow> 0)"

definition size_at :: "node \<Rightarrow> path \<Rightarrow> nat" where
  "size_at t p = (case lookup t p of Some (File c) \<Rightarrow> length c | _ \<Rightarrow> 0)"

definition entry_count :: "node \<Rightarrow> path \<Rightarrow> DirEntry \<Rightarrow> nat" where
  "entry_count t d e = (if snd e then files_under t (d @ [fst e]) else 1)"

definition entries_count :: "node \<Rightarrow> path \<Rightarrow> DirEntry list \<Rightarrow> nat" where
  "entries_count t d es = sum_list (map (entry_count t d) es)"

definition entry_bytes :: "node \<Rightarrow> path \<Rightarrow> DirEntry \<Rightarrow> nat" where
  "entry_bytes t d e =
     (if snd e then bytes_under t (d @ [fst e]) else size_at t (d @ [fst e]))"

definition entries_bytes :: "node \<Rightarrow> path \<Rightarrow> DirEntry list \<Rightarrow> nat" where
  "entries_bytes t d es = sum_list (map (entry_bytes t d) es)"

fun uncounted :: "node \<Rightarrow> sworker \<Rightarrow> nat" where
  "uncounted t SRecv = 0"
| "uncounted t (SCheck d) = files_under t d"
| "uncounted t (SReadDir d) = files_under t d"
| "uncounted t (SErrDir e) = 0"
| "uncounted t SWGDone = 0"
| "uncounted t (SRange d es) = entries_count t d es"
| "uncounted t (SAdd d p es) = files_under t p + entries_count t d es"
| "uncounted t (SPush d p es) = files_under t p + entries_count t d es"
| "uncounted t (SLstat d p es) = 1 + entries_count t d es"
| "uncounted t (SErrLstat e d es) = entries_count t d es"
| "uncounted t (SCount fi es) = 1 + entries_count t (Dir fi) es"
| "uncounted t (SCountSize fi es) = entries_count t (Dir fi) es"
| "uncounted t (SCheckSend fi es) = entries_count t (Dir fi) es"
| "uncounted t (SSend fi es) = entries_count t (Dir fi) es"
| "uncounted t SExit = 0"

fun unsized :: "node \<Rightarrow> sworker \<Rightarrow> nat" where
  "unsized t SRecv = 0"
| "unsized t (SCheck d) = bytes_under t d"
| "unsized t (SReadDir d) = bytes_under t d"
| "unsized t (SErrDir e) = 0"
| "unsized t SWGDone = 0"
| "unsized t (SRange d es) = entries_bytes t d es"
| "unsized t (SAdd d p es) = bytes_under t p + entries_bytes t d es"
| "unsized t (SPush d p es) = bytes_under t p + entries_bytes t d es"
| "unsized t (SLstat d p es) = size_at t p + entries_bytes t d es"
| "unsized t (SErrLstat e d es) = entries_bytes t d es"
| "unsized t (SCount fi es) = nat (FileInfo.Size fi) + entries_bytes t (Dir fi) es"
| "unsized t (SCountSize fi es) = nat (FileInfo.Size fi) + entries_bytes t (Dir fi) es"
| "unsized t (SCheckSend fi es) = entries_bytes t (Dir fi) es"
| "unsized t (SSend fi es) = entries_bytes t (Dir fi) es"
| "unsized t SExit = 0"

definition main_files :: "node \<Rightarrow> smain \<Rightarrow> nat" where
  "main_files t m = (case m of MSendRoot p \<Rightarrow> files_under t p | _ \<Rightarrow> 0)"

definition main_bytes :: "node \<Rightarrow> smain \<Rightarrow> nat" where
  "main_bytes t m = (case m of MSendRoot p \<Rightarrow> bytes_under t p | _ \<Rightarrow> 0)"

text \<open>
  The order on snapshots in the two counters (\<open>counters_le\<close>) and in the counters and
  the elapsed time (\<open>progress_le\<close>).  \<open>final_pending\<close>: the main goroutine has not yet
  offered the final snapshot to the stream.

  \<open>inv_clock\<close>: the clock never runs backwards and sizes are not negative.
  \<open>inv_bound\<close>: the two counters are not negative, and together with what is still
  to be added to them they stay within the files and the bytes below the scanned
  root, which are less than \<open>2^63\<close>: no \<^verbatim>\<open>atomic.AddInt64\<close> of the scan wraps.
  \<open>inv_below\<close>: no snapshot, sent or sampled by the monitor, is ahead of the live
  counters and clock.
  \<open>inv_final\<close>: the final snapshot, once built, carries the live counters, and its
  elapsed time is not ahead of the clock.
  \<open>inv_sorted\<close>: until the final snapshot is offered, the stream is sorted and the
  snapshot sampled by the monitor is not behind it.
\<close>

definition counters_le :: "Progress \<Rightarrow> Progress \<Rightarrow> bool" where
  "counters_le p q \<longleftrightarrow>
     Progress.TotalFiles p \<le> Progress.TotalFiles q \<and> Progress.TotalSize p \<le> Progress.TotalSize q"

definition progress_le :: "Progress \<Rightarrow> Progress \<Rightarrow> bool" where
  "progress_le p q \<longleftrightarrow> counters_le p q \<and> Progress.ElapsedTime p \<le> Progress.ElapsedTime q"

definition final_pending :: "smain \<Rightarrow> bool" where
  "final_pending m = (case m of MClose \<Rightarrow> False | MExit \<Rightarrow> False | _ \<Rightarrow> True)"

fun size_ok :: "sworker \<Rightarrow> bool" where
  "size_ok (SCount fi es) = (0 \<le> FileInfo.Size fi)"
| "size_ok (SCountSize fi es) = (0 \<le> FileInfo.Size fi)"
| "size_ok w = True"

definition sampled_le :: "smonitor \<Rightarrow> Progress \<Rightarrow> bool" where
  "sampled_le m q = (case m of MonSampled p \<Rightarrow> progress_le p q | _ \<Rightarrow> True)"

definition le_sampled :: "Progress list \<Rightarrow> smonitor \<Rightarrow> bool" where
  "le_sampled ps m = (case m of MonSampled p \<Rightarrow> (\<forall>q \<in> set ps. progress_le q p) | _ \<Rightarrow> True)"

definition inv_clock :: "scan \<Rightarrow> bool" where
  "inv_clock s \<longleftrightarrow> Scanner.startTime s \<le> s_now s \<and> (\<forall>w \<in> set (s_workers s). size_ok w)"

definition inv_bound :: "path \<Rightarrow> scan \<Rightarrow> bool" where
  "inv_bound rt s \<longleftrightarrow>
     0 \<le> totalFiles s \<and> 0 \<le> totalSize s \<and>
     totalFiles s + int (sum_list (map (files_under (tree s)) (buf (dirCh s))))
       + sum_list (map (\<lambda>w. int (uncounted (tree s) w)) (s_workers s))
       + int (main_files (tree s) (s_main s))
       \<le> int (files_under (tree s) rt) \<and>
     totalSize s + int (sum_list (map (bytes_under (tree s)) (buf (dirCh s))))
       + sum_list (map (\<lambda>w. int (unsized (tree s) w)) (s_workers s))
       + int (main_bytes (tree s) (s_main s))
       \<le> int (bytes_under (tree s) rt) \<and>
     int (files_under (tree s) rt) < 2 ^ 63 \<and> int (bytes_under (tree s) rt) < 2 ^ 63"

definition inv_below :: "scan \<Rightarrow> bool" where
  "inv_below s \<longleftrightarrow>
     (\<forall>p \<in> set (hist (Scanner.progressCh s)). progress_le p (scan_snapshot s)) \<and>
     sampled_le (s_monitor s) (scan_snapshot s)"

definition inv_final :: "scan \<Rightarrow> bool" where
  "inv_final s \<longleftrightarrow>
     (case s_main s of
        MFinalSend p \<Rightarrow>
          Progress.TotalFiles p = totalFiles s \<and> Progress.TotalSize p = totalSize s \<and>
          Progress.ElapsedTime p \<le> int (s_now s) - int (Scanner.startTime s)
      | _ \<Rightarrow> True)"

definition inv_sorted :: "scan \<Rightarrow> bool" where
  "inv_sorted s \<longleftrightarrow>
     (final_pending (s_main s) \<longrightarrow>
        sorted_wrt progress_le (hist (Scanner.progressCh s)) \<and>
        le_sampled (hist (Scanner.progressCh s)) (s_monitor s))"

text \<open>
  A scan of the example tree in which the first file is counted within the first
  second and nothing else happens during the next one; the monitor ticks after one
  and after two seconds.
\<close>

definition slowing_schedule :: "event list" where
  "slowing_schedule =
     MainStep # replicate 5 (Worker 0) @
     [Clock 1000000000, MonTick, MonSend, Clock 1000000000, MonTick, MonSend]"

definition slowing_scan :: scan where
  "slowing_scan =
     scan_run slowing_schedule
       (ScanDirectory (the (NewScanner default_env 1 0)) default_env example_tree 0 [''src''])"

text \<open>
  A scan in which the monitor has built a snapshot (one file seen) when the workers
  finish, and sends it only after the main goroutine has sent the final one.
\<close>

definition stale_schedule :: "event list" where
  "stale_schedule =
     MainStep # replicate 5 (Worker 0) @ [Clock 500000000, MonTick] @ replicate 35 (Worker 0)
       @ [Closer] @ all_workers_exit @ [MainStep, MainStep, MainStep, MainStep, MonSend, MainStep]"

definition stale_scan :: scan where
  "stale_scan =
     scan_run stale_schedule
       (ScanDirectory (the (NewScanner default_env 1 0)) default_env example_tree 0 [''src''])"






text \<open>
  A scan of the example tree in which the main goroutine builds the final snapshot
  half a second after the start; the monitor ticks a microsecond later and sends
  its snapshot before the main goroutine sends the final one.
\<close>

definition racing_schedule :: "event list" where
  "racing_schedule =
     MainStep # replicate 40 (Worker 0) @ [Closer] @ all_workers_exit
       @ [Clock 500000000, MainStep, MainStep, MainStep, Clock 1000, MonTick, MonSend]"

definition racing_scan :: scan where
  "racing_scan =
     scan_run racing_schedule
       (ScanDirectory (the (NewScanner default_env 1 0)) default_env example_tree 0 [''src''])"

text \<open>
  \<^verbatim>\<open>SCANNER_FILES_BUF=0\<close>: the file stream is unbuffered.  In the first run nobody
  receives; in the second the consumer waits in its receive before each of the two
  sends.
\<close>

definition unbuffered_env :: env where
  "unbuffered_env =
     \<lparr>env_int = (\<lambda>k. if k = ''SCANNER_FILES_BUF'' then Some 0 else None), env_bool = (\<lambda>k. None)\<rparr>"

definition unbuffered_waiting :: scan where
  "unbuffered_waiting =
     scan_run (MainStep # replicate 40 (Worker 0))
       (ScanDirectory (the (NewScanner unbuffered_env 1 0)) unbuffered_env example_tree 0 [''src''])"

definition unbuffered_schedule :: "event list" where
  "unbuffered_schedule =
     MainStep # RecvFile # replicate 7 (Worker 0) @ RecvFile # replicate 33 (Worker 0)
       @ [Closer] @ all_workers_exit @ finish"

definition unbuffered_scan :: scan where
  "unbuffered_scan =
     scan_run unbuffered_schedule
       (ScanDirectory (the (NewScanner unbuffered_env 1 0)) unbuffered_env example_tree 0 [''src''])"


section \<open>Invariants of the copier\<close>

text \<open>
  The flat view of the file system that the proofs use: the bytes of the file at a
  path, if there is one, and whether anything is there.
\<close>

definition file_at :: "node \<Rightarrow> path \<Rightarrow> byte list option" where
  "file_at t q = (case lookup t q of Some (File c) \<Rightarrow> Some c | _ \<Rightarrow> None)"

definition exists_at :: "node \<Rightarrow> path \<Rightarrow> bool" where
  "exists_at t q = (lookup t q \<noteq> None)"

text \<open>
  A run on an empty file list.  \<open>idle\<close>: no worker and no monitor exists, and the main
  goroutine is before its first step, before the deferred \<^verbatim>\<open>Close\<close>, or done.
  \<open>emitted\<close>: everything the three streams have ever accepted.  \<open>steps_to_close\<close>: the
  steps the main goroutine needs until the streams are closed.
\<close>

definition idle :: "copy \<Rightarrow> bool" where
  "idle s \<longleftrightarrow>
     c_workers s = [] \<and> c_monitor s = CMonOff \<and> files s = [] \<and>
     (c_main s = CStart \<or> c_main s = CClose \<or> c_main s = CExit)"

definition streams_open :: "copy \<Rightarrow> bool" where
  "streams_open s \<longleftrightarrow>
     \<not> closed (progressCh s) \<and> \<not> closed (resultCh s) \<and> \<not> closed (errCh s)"

definition streams_closed :: "copy \<Rightarrow> bool" where
  "streams_closed s \<longleftrightarrow> closed (progressCh s) \<and> closed (resultCh s) \<and> closed (errCh s)"

definition emitted :: "copy \<Rightarrow> CopyResult list \<times> CopyProgress list \<times> error list" where
  "emitted s = (hist (resultCh s), hist (progressCh s), hist (errCh s))"

fun steps_to_close :: "cmain \<Rightarrow> nat" where
  "steps_to_close CStart = 2"
| "steps_to_close CClose = 1"
| "steps_to_close m = 0"

definition closing :: "copy \<Rightarrow> bool" where
  "closing s \<longleftrightarrow>
     idle s \<and> (if c_main s = CExit then streams_closed s else streams_open s \<and> \<not> c_panicked s)"

text \<open>
  A source tree of directories only, \<^verbatim>\<open>/src/a/b\<close>, whose scan gives the empty file
  list; and the example scenario after the first step of the copy goroutine.
\<close>

definition dirs_only_tree :: node where
  "dirs_only_tree = Directory [(''src'', Directory [(''a'', Directory [(''b'', Directory [])])])]"

definition dirs_only_copy :: copy where
  "dirs_only_copy =
     copy_run [MainStep, MainStep]
       (CopyFilesParallel (NewCopier [''src''] [''dst''] False 1 0) dirs_only_tree 0 1000 [])"

definition example_files :: "path list" where
  "example_files = [[''src'', ''x.txt''], [''src'', ''sub'', ''y.txt'']]"

definition example_copy_started :: copy where
  "example_copy_started =
     copy_run [MainStep]
       (CopyFilesParallel (NewCopier [''src''] [''dst''] False 1 0) example_tree 0 1000
          example_files)"

text \<open>
  \<open>fresh\<close>: a copier as \<^verbatim>\<open>NewCopier\<close> returns it, possibly after \<^verbatim>\<open>SetTotal\<close> with a
  count that is not negative: nothing counted, nothing sent, the streams open.
  \<open>workers_done\<close>: the main goroutine is past \<^verbatim>\<open>wg.Wait()\<close>.
  \<open>cinv_pc\<close>: before the first step of the main goroutine nothing exists and nothing
  is counted; past \<^verbatim>\<open>wg.Wait()\<close> every worker has returned; the streams stay open,
  and nothing panics, until the deferred \<^verbatim>\<open>Close\<close>.
  \<open>cinv_count\<close>: the files counted as completed or failed, those a worker holds
  (\<open>busy\<close>) and those still queued are together at most \<^verbatim>\<open>TotalFiles\<close>, which is the
  length of the file list once the run has started.
  \<open>cinv_snap\<close>: every snapshot, sent or sampled, satisfies the same bound.
\<close>

definition fresh :: "Copier \<Rightarrow> bool" where
  "fresh c \<longleftrightarrow>
     CompletedFiles (progress c) = 0 \<and> FailedFiles (progress c) = 0 \<and>
     0 \<le> TotalFiles (progress c) \<and>
     hist (resultCh c) = [] \<and> hist (progressCh c) = [] \<and>
     \<not> closed (progressCh c) \<and> \<not> closed (resultCh c) \<and> \<not> closed (errCh c)"

definition workers_done :: "cmain \<Rightarrow> bool" where
  "workers_done m = (case m of CStart \<Rightarrow> False | CWait \<Rightarrow> False | _ \<Rightarrow> True)"

definition cinv_pc :: "copy \<Rightarrow> bool" where
  "cinv_pc s \<longleftrightarrow>
     (c_main s = CStart \<longrightarrow>
        c_workers s = [] \<and> c_monitor s = CMonOff \<and> attempted s = [] \<and>
        buf (fileChan s) = [] \<and>
        hist (resultCh s) = [] \<and> hist (progressCh s) = [] \<and>
        CompletedFiles (progress s) = 0 \<and> FailedFiles (progress s) = 0 \<and>
        0 \<le> TotalFiles (progress s)) \<and>
     (workers_done (c_main s) \<longrightarrow> (\<forall>w \<in> set (c_workers s). w = WExit)) \<and>
     (c_main s \<noteq> CExit \<longrightarrow> streams_open s \<and> \<not> c_panicked s)"

fun busy :: "cworker \<Rightarrow> int" where
  "busy WRecv = 0"
| "busy WExit = 0"
| "busy w = 1"

definition cinv_count :: "copy \<Rightarrow> bool" where
  "cinv_count s \<longleftrightarrow>
     CompletedFiles (progress s) + FailedFiles (progress s) + sum_list (map busy (c_workers s))
       + int (length (buf (fileChan s))) \<le> TotalFiles (progress s) \<and>
     (c_main s \<noteq> CStart \<and> files s \<noteq> [] \<longrightarrow> TotalFiles (progress s) = int (length (files s)))"

definition counted :: "CopyProgress \<Rightarrow> bool" where
  "counted p \<longleftrightarrow> CompletedFiles p + FailedFiles p \<le> TotalFiles p"

definition cinv_snap :: "copy \<Rightarrow> bool" where
  "cinv_snap s \<longleftrightarrow>
     (\<forall>p \<in> set (hist (progressCh s)). counted p) \<and>
     (case c_monitor s of CMonSampled p \<Rightarrow> counted p | _ \<Rightarrow> True)"

text \<open>
  The example scenario copied by one worker (\<^verbatim>\<open>NewCopier\<close> on one CPU): 13 steps for
  \<^verbatim>\<open>x.txt\<close>, 10 for the empty \<^verbatim>\<open>sub/y.txt\<close>, one to return.  In the slow-reader run the
  monitor ticks 100 times, half a second apart, before the worker runs, and the
  caller reads nothing from the progress stream.
\<close>

definition copy_all_schedule :: "event list" where
  "copy_all_schedule = replicate 24 (Worker 0)"

definition slow_reader_schedule :: "event list" where
  "slow_reader_schedule =
     MainStep # concat (replicate 100 [Clock 500000000, MonTick, MonSend]) @ copy_all_schedule
       @ [MainStep, MainStep, MainStep, MainStep]"

definition slow_reader_copy :: copy where
  "slow_reader_copy =
     copy_run slow_reader_schedule
       (CopyFilesParallel (NewCopier [''src''] [''dst''] False 1 0) example_tree 0 1000
          example_files)"

text \<open>
  The example scenario up to the point where the main goroutine is about to send the
  final snapshot, and to the end.
\<close>

definition example_copy_schedule :: "event list" where
  "example_copy_schedule = MainStep # copy_all_schedule @ [MainStep, MainStep]"

definition example_copy_final :: copy where
  "example_copy_final =
     copy_run example_copy_schedule
       (CopyFilesParallel (NewCopier [''src''] [''dst''] False 1 0) example_tree 0 1000
          example_files)"

definition example_copy :: copy where
  "example_copy = copy_run [MainStep, MainStep] example_copy_final"

text \<open>
  The file a worker has attempted and not yet reported (\<open>held\<close>: from the call of
  \<^verbatim>\<open>copySingleFile\<close> to the send of its result), and whether a worker has sent a
  result of the given kind and not yet added it to its counter (\<open>pending_update\<close>).
  \<open>holds\<close>, \<open>updating\<close> and \<open>at_check\<close> count them per worker, for the invariants.
\<close>

fun held :: "cworker \<Rightarrow> path list" where
  "held (WMkdirAll src dst) = [src]"
| "held (WStat src dst) = [src]"
| "held (WOpen src dst sz) = [src]"
| "held (WCreate src dst sz) = [src]"
| "held (WLoop src dst sz off) = [src]"
| "held (WRead src dst sz off) = [src]"
| "held (WWrite src dst sz off chunk) = [src]"
| "held (WSend r) = [FilePath r]"
| "held w = []"

definition in_flight :: "copy \<Rightarrow> path multiset" where
  "in_flight s = mset (concat (map held (c_workers s)))"

fun pending_update :: "bool \<Rightarrow> cworker \<Rightarrow> bool" where
  "pending_update b (WUpdate r) = (Success r = b)"
| "pending_update b w = False"

definition holds :: "path \<Rightarrow> cworker \<Rightarrow> int" where
  "holds f w = int (count_list (held w) f)"

definition updating :: "bool \<Rightarrow> cworker \<Rightarrow> int" where
  "updating b w = (if pending_update b w then 1 else 0)"

fun at_check :: "path \<Rightarrow> cworker \<Rightarrow> int" where
  "at_check f (WCheck src) = (if src = f then 1 else 0)"
| "at_check f w = 0"

definition held_eq :: "copy \<Rightarrow> path \<Rightarrow> bool" where
  "held_eq s f \<longleftrightarrow>
     int (count_list (attempted s) f) =
       int (count_list (map FilePath (hist (resultCh s))) f)
         + sum_list (map (holds f) (c_workers s))"

definition queue_le :: "copy \<Rightarrow> path \<Rightarrow> bool" where
  "queue_le s f \<longleftrightarrow>
     int (count_list (attempted s) f) + sum_list (map (at_check f) (c_workers s))
       + int (count_list (buf (fileChan s)) f) \<le> int (count_list (files s) f)"

definition upd_eq :: "copy \<Rightarrow> bool" where
  "upd_eq s \<longleftrightarrow>
     CompletedFiles (progress s) + sum_list (map (updating True) (c_workers s)) =
       int (length (filter Success (hist (resultCh s)))) \<and>
     FailedFiles (progress s) + sum_list (map (updating False) (c_workers s)) =
       int (length (filter (\<lambda>r. \<not> Success r) (hist (resultCh s))))"

definition cinv_results :: "copy \<Rightarrow> bool" where
  "cinv_results s \<longleftrightarrow> (\<forall>f. held_eq s f \<and> queue_le s f) \<and> upd_eq s"

text \<open>
  A file list of 1001 files that are gone from the (now empty) source directory when
  the copy starts, copied by the one worker of \<^verbatim>\<open>NewCopier\<close> on one CPU while the caller
  never receives from the result stream.  Each attempt takes the worker six steps
  (receive, cancel check, \<^verbatim>\<open>MkdirAll\<close>, the failing \<^verbatim>\<open>Stat\<close>, send, count).
  \<open>reported n\<close>: the state after \<open>n\<close> attempts; \<open>stalled h\<close>: the worker holds the
  result of the last file at the send, the result queue is full with \<open>h\<close>.
\<close>

definition emptied_tree :: node where
  "emptied_tree = Directory [(''src'', Directory [])]"

definition gone :: "nat \<Rightarrow> path" where
  "gone k = [''src'', replicate (Suc k) CHR ''a'']"

definition gone_files :: "path list" where
  "gone_files = map gone [0..<1001]"

definition stalled_start :: copy where
  "stalled_start =
     copy_run [MainStep]
       (CopyFilesParallel (NewCopier [''src''] [''dst''] False 1 0) emptied_tree 0 1000 gone_files)"

definition stalled_copy :: copy where
  "stalled_copy = copy_run (replicate (6 * 1000 + 4) (Worker 0)) stalled_start"

definition reported :: "nat \<Rightarrow> copy \<Rightarrow> bool" where
  "reported n s \<longleftrightarrow>
     \<not> c_panicked s \<and> c_workers s = [WRecv] \<and> c_main s = CWait \<and> \<not> canceled s \<and>
     buf (fileChan s) = map gone [n..<1001] \<and>
     sourceDir s = [''src''] \<and> targetDir s = [''dst''] \<and>
     fs s = Directory [(''src'', Directory []), (''dst'', Directory [])] \<and>
     cap (resultCh s) = 1000 \<and> \<not> closed (resultCh s) \<and> length (buf (resultCh s)) = n \<and>
     \<not> closed (progressCh s) \<and>
     map FilePath (hist (resultCh s)) = map gone [0..<n] \<and>
     attempted s = map gone [0..<n] \<and>
     CompletedFiles (progress s) = 0 \<and> FailedFiles (progress s) = int n"

definition stalled :: "CopyResult list \<Rightarrow> copy \<Rightarrow> bool" where
  "stalled h s \<longleftrightarrow>
     \<not> c_panicked s \<and> c_workers s = [WSend (failed (gone 1000) (ErrStat (gone 1000)) 0)] \<and>
     c_main s = CWait \<and>
     cap (resultCh s) = 1000 \<and> \<not> closed (resultCh s) \<and> length (buf (resultCh s)) = 1000 \<and>
     \<not> closed (progressCh s) \<and>
     hist (resultCh s) = h \<and> map FilePath h = map gone [0..<1000] \<and>
     attempted s = gone_files \<and>
     CompletedFiles (progress s) = 0 \<and> FailedFiles (progress s) = 1000"



section \<open>Proofs about the scanner\<close>

lemma recv_sel [simp]:
  "hist (recv ch) = hist ch" "closed (recv ch) = closed ch" "cap (recv ch) = cap ch"
  "buf (recv ch) = tl (buf ch)"
  by (simp_all add: recv_def dequeue_def split: list.splits)

lemma dequeue_sel [simp]:
  "hist (dequeue ch) = hist ch" "closed (dequeue ch) = closed ch" "cap (dequeue ch) = cap ch"
  "buf (dequeue ch) = tl (buf ch)" "receivers (dequeue ch) = receivers ch"
  by (simp_all add: dequeue_def)

lemma accept_sel [simp]:
  "hist (accept x ch) = hist ch @ [x]" "closed (accept x ch) = closed ch"
  "cap (accept x ch) = cap ch"
  by (simp_all add: accept_def hand_over_def enqueue_def)

lemma buf_accept [simp]: "0 < cap ch \<Longrightarrow> buf (accept x ch) = buf ch @ [x]"
  by (simp add: accept_def enqueue_def)

lemma accept_buffered: "0 < cap ch \<Longrightarrow> accept x ch = enqueue x ch"
  by (simp add: accept_def)

lemma full_buffered: "0 < cap ch \<Longrightarrow> full ch \<longleftrightarrow> cap ch \<le> length (buf ch)"
  by (simp add: full_def)

lemma close_chan_sel [simp]:
  "hist (close_chan ch) = hist ch" "closed (close_chan ch)" "cap (close_chan ch) = cap ch"
  "buf (close_chan ch) = buf ch"
  by (simp_all add: close_chan_def)


lemma lookup_append:
  "lookup t (p @ q) = (case lookup t p of None \<Rightarrow> None | Some n \<Rightarrow> lookup n q)"
  by (induction t p rule: lookup.induct) (auto split: node.splits option.splits)

lemma wf_lookup: "wf_node t \<Longrightarrow> lookup t p = Some n \<Longrightarrow> wf_node n"
proof (induction t p rule: lookup.induct)
  case (1 n)
  then show ?case by simp
next
  case (2 n x xs)
  then show ?case
    by (auto split: node.splits option.splits dest!: map_of_SomeD)
qed

lemma count_children:
  assumes "lookup t d = Some (Directory es0)" and "set es \<subseteq> set es0" and "distinct (map fst es0)"
  shows "int (sum_list (map (\<lambda>e. count_files (snd e)) es)) = entries_files t d (map (\<lambda>e. (fst e, is_dir (snd e))) es)"
  using assms
proof (induction es)
  case Nil
  then show ?case by (simp add: entries_files_def)
next
  case (Cons e es)
  obtain n c where e: "e = (n, c)" by (cases e)
  from Cons.prems e have "map_of es0 n = Some c" by auto
  then have lk: "lookup t (d @ [n]) = Some c" using Cons.prems(1) by (simp add: lookup_append)
  have "entry_files t d (n, is_dir c) = count_files c"
    by (cases c) (simp_all add: entry_files_def files_under_def lk)
  with Cons e show ?case by (simp add: entries_files_def)
qed

lemma ReadDir_files:
  assumes "wf_node t" and "ReadDir t d = Inr es"
  shows "int (files_under t d) = entries_files t d es"
proof -
  from assms(2) obtain es0 where lk: "lookup t d = Some (Directory es0)"
    and es: "es = map (\<lambda>e. (fst e, is_dir (snd e))) es0"
    by (auto simp: ReadDir_def split: option.splits node.splits)
  from wf_lookup[OF assms(1) lk] have d: "distinct (map fst es0)" by simp
  show ?thesis using count_children[OF lk subset_refl d] lk es by (simp add: files_under_def)
qed

lemma ReadDir_fail: "ReadDir t d = Inl e \<Longrightarrow> files_under t d = 0"
  by (auto simp: ReadDir_def files_under_def split: option.splits node.splits)

lemma ReadDir_lookup:
  assumes "wf_node t" and "ReadDir t d = Inr es" and "(a, b) \<in> set es"
  shows "\<exists>y. lookup t (d @ [a]) = Some y"
proof -
  from assms(2) obtain es0 where lk: "lookup t d = Some (Directory es0)"
    and es: "es = map (\<lambda>e. (fst e, is_dir (snd e))) es0"
    by (auto simp: ReadDir_def split: option.splits node.splits)
  from wf_lookup[OF assms(1) lk] have d: "distinct (map fst es0)" by simp
  from assms(3) es obtain c where "(a, c) \<in> set es0" by auto
  with d have "map_of es0 a = Some c" by simp
  with lk show ?thesis by (simp add: lookup_append)
qed

lemma sum_list_map_update:
  "i < length xs \<Longrightarrow> sum_list (map f (xs[i := y])) = sum_list (map f xs) - f (xs ! i) + (f y :: int)"
proof (induction xs arbitrary: i)
  case Nil
  then show ?case by simp
next
  case (Cons x xs)
  then show ?case by (cases i) auto
qed

lemma scan_total_set_sworker:
  "i < length (s_workers s) \<Longrightarrow>
   scan_total (set_sworker i w s) = scan_total s - pending (tree s) (s_workers s ! i) + pending (tree s) w"
  using sum_list_map_update[of i "s_workers s" "pending (tree s)" w]
  by (simp add: scan_total_def set_sworker_def)

lemma in_set_updE:
  "w \<in> set (ws[i := w']) \<Longrightarrow> (w = w' \<Longrightarrow> P) \<Longrightarrow> (w \<in> set ws \<Longrightarrow> P) \<Longrightarrow> P"
  using set_update_subset_insert[of ws i w'] by auto

lemma tree_sworker_step [simp]: "tree (sworker_step i w s) = tree s"
  by (cases "(i, w, s)" rule: sworker_step.cases)
     (auto simp: set_sworker_def s_try_send_err_def s_panic_def wg_done_def Let_def
           split: list.splits sum.splits sent.splits option.splits)

lemma tree_sworker_fault [simp]: "tree (sworker_fault i w s) = tree s"
  by (cases "(i, w, s)" rule: sworker_fault.cases) (auto simp: set_sworker_def)

lemma tree_smain_step [simp]: "tree (smain_step m s) = tree s"
  by (cases m) (auto simp: s_panic_def s_try_send_progress_def Scanner_Close_def
                 split: sent.splits option.splits)

lemma tree_smonitor_step [simp]: "tree (smonitor_step e m s) = tree s"
  by (cases "(e, m, s)" rule: smonitor_step.cases)
     (auto simp: s_panic_def s_try_send_progress_def split: option.splits)

lemma tree_scan_step [simp]: "tree (scan_step e s) = tree s"
  by (cases e) (auto simp: scan_step_def Scanner_Cancel_def)

lemma tree_scan_run [simp]: "tree (scan_run sched s) = tree s"
  unfolding scan_run_def by (induction sched arbitrary: s) auto

lemma workers_set_sworker [simp]: "s_workers (set_sworker i w s) = (s_workers s)[i := w]"
  by (simp add: set_sworker_def)

lemma tree_set_sworker [simp]: "tree (set_sworker i w s) = tree s"
  by (simp add: set_sworker_def)

lemma cap_dirCh_worker [simp]: "cap (dirCh (sworker_step i w s)) = cap (dirCh s)"
  by (cases "(i, w, s)" rule: sworker_step.cases)
     (auto simp: set_sworker_def s_try_send_err_def s_panic_def wg_done_def Let_def send_def
           split: list.splits sum.splits sent.splits option.splits)

lemma cap_dirCh_fault [simp]: "cap (dirCh (sworker_fault i w s)) = cap (dirCh s)"
  by (cases "(i, w, s)" rule: sworker_fault.cases) (auto simp: set_sworker_def)

lemma cap_dirCh_main [simp]: "cap (dirCh (smain_step m s)) = cap (dirCh s)"
  by (cases m) (auto simp: s_panic_def s_try_send_progress_def Scanner_Close_def send_def
                 split: sent.splits option.splits)

lemma cap_dirCh_monitor [simp]: "cap (dirCh (smonitor_step e m s)) = cap (dirCh s)"
  by (cases "(e, m, s)" rule: smonitor_step.cases)
     (auto simp: s_panic_def s_try_send_progress_def split: option.splits)

lemma inv_ok_worker:
  assumes wf: "wf_node (tree s)" and ok: "lstat_ok (tree s) w"
    and rest: "\<forall>v \<in> set (s_workers s). lstat_ok (tree s) v" and cp: "0 < cap (dirCh s)"
  shows "inv_ok (sworker_step i w s)"
proof -
  have "wf_node (tree (sworker_step i w s)) \<and>
        (\<forall>v \<in> set (s_workers (sworker_step i w s)). lstat_ok (tree s) v)"
  proof (cases "(i, w, s)" rule: sworker_step.cases)
    case (3 i' d s')
    then show ?thesis using wf rest ReadDir_lookup[OF wf, of d]
      by (auto split: sum.splits elim!: in_set_updE)
  next
    case (10 i' d p es s')
    then show ?thesis using wf ok rest
      by (auto simp: Lstat_def split: sum.splits option.splits elim!: in_set_updE)
  qed (use wf ok rest in \<open>auto simp: s_try_send_err_def s_panic_def Let_def wg_done_def
        send_def split: list.splits sent.splits option.splits elim!: in_set_updE\<close>)
  with cp show ?thesis by (simp add: inv_ok_def)
qed

lemma inv_ok_fault:
  assumes wf: "wf_node (tree s)" and ok: "lstat_ok (tree s) w"
    and rest: "\<forall>v \<in> set (s_workers s). lstat_ok (tree s) v" and cp: "0 < cap (dirCh s)"
  shows "inv_ok (sworker_fault i w s)"
  by (cases "(i, w, s)" rule: sworker_fault.cases)
     (use assms in \<open>auto simp: inv_ok_def set_sworker_def elim!: in_set_updE\<close>)

lemma workers_smain_step [simp]: "s_workers (smain_step m s) = s_workers s"
  by (cases m) (auto simp: s_panic_def s_try_send_progress_def Scanner_Close_def
                 split: sent.splits option.splits)

lemma workers_smonitor_step [simp]: "s_workers (smonitor_step e m s) = s_workers s"
  by (cases "(e, m, s)" rule: smonitor_step.cases)
     (auto simp: s_panic_def s_try_send_progress_def split: option.splits)

lemma inv_ok_step: "inv_ok s \<Longrightarrow> inv_ok (scan_step e s)"
proof (cases e)
  case (Worker i)
  then show "inv_ok s \<Longrightarrow> ?thesis"
    using inv_ok_worker[of s "s_workers s ! i" i] by (simp add: scan_step_def inv_ok_def)
next
  case (Fault i)
  then show "inv_ok s \<Longrightarrow> ?thesis"
    using inv_ok_fault[of s "s_workers s ! i" i] by (simp add: scan_step_def inv_ok_def)
qed (auto simp: scan_step_def inv_ok_def Scanner_Cancel_def)

lemma inv_count_worker:
  assumes wf: "wf_node (tree s)" and ok: "lstat_ok (tree s) w" and cp: "0 < cap (dirCh s)"
    and i: "i < length (s_workers s)" and w: "s_workers s ! i = w"
    and inv: "inv_count rt s"
  shows "inv_count rt (sworker_step i w s)"
proof (cases "(i, w, s)" rule: sworker_step.cases)
  case (3 i' d s')
  then show ?thesis using i w inv ReadDir_files[OF wf, of d] ReadDir_fail[of "tree s" d]
    by (auto simp: inv_count_def scan_total_def set_sworker_def sum_list_map_update split: sum.splits)
next
  case (10 i' d p es s')
  then show ?thesis using i w inv ok
    by (auto simp: inv_count_def scan_total_def set_sworker_def sum_list_map_update Lstat_def
             split: sum.splits option.splits)
qed (use i w inv cp in \<open>auto simp: inv_count_def scan_total_def set_sworker_def sum_list_map_update
      s_try_send_err_def s_panic_def Let_def wg_done_def send_def try_send_def
      entries_files_def entry_files_def
      split: list.splits sent.splits option.splits\<close>)

lemma inv_count_main:
  "0 < cap (dirCh s) \<Longrightarrow> inv_count rt s \<Longrightarrow> inv_count rt (smain_step (s_main s) s)"
  by (cases "s_main s")
     (auto simp: inv_count_def scan_total_def main_pending_def send_def s_panic_def
        s_try_send_progress_def try_send_def Scanner_Close_def
        split: sent.splits option.splits)

lemma inv_count_monitor: "inv_count rt s \<Longrightarrow> inv_count rt (smonitor_step e m s)"
  by (cases "(e, m, s)" rule: smonitor_step.cases)
     (auto simp: inv_count_def scan_total_def s_try_send_progress_def try_send_def s_panic_def
        split: option.splits)

lemma inv_count_step:
  assumes "inv_ok s" and "inv_count rt s" and "\<forall>i. e \<noteq> Fault i"
  shows "inv_count rt (scan_step e s)"
proof (cases e)
  case (Worker i)
  then show ?thesis
    using assms inv_count_worker[of s "s_workers s ! i" i rt]
    by (auto simp: scan_step_def inv_ok_def)
next
  case MainStep
  then show ?thesis using assms inv_count_main[of s rt] by (simp add: scan_step_def inv_ok_def)
qed (use assms inv_count_monitor[of rt s e "s_monitor s"] in
      \<open>auto simp: scan_step_def inv_count_def scan_total_def Scanner_Cancel_def\<close>)

lemma inv_exit_worker:
  assumes i: "i < length (s_workers s)" and w: "s_workers s ! i = w" and inv: "inv_exit s"
  shows "inv_exit (sworker_step i w s)"
proof -
  have ex: "w = SExit \<longrightarrow> buf (dirCh s) = [] \<and> closed (dirCh s)"
    using i w inv nth_mem[of i "s_workers s"] by (auto simp: inv_exit_def)
  have nex: "joined (s_main s) \<longrightarrow> w = SExit"
    using i w inv nth_mem[of i "s_workers s"] by (auto simp: inv_exit_def)
  show ?thesis
    by (cases "(i, w, s)" rule: sworker_step.cases)
       (use inv ex nex in \<open>auto simp: inv_exit_def set_sworker_def s_try_send_err_def s_panic_def
          Let_def wg_done_def send_def try_send_def
          split: list.splits sent.splits option.splits sum.splits elim!: in_set_updE\<close>)
qed

lemma inv_exit_fault:
  assumes i: "i < length (s_workers s)" and w: "s_workers s ! i = w" and inv: "inv_exit s"
  shows "inv_exit (sworker_fault i w s)"
proof -
  have nex: "joined (s_main s) \<longrightarrow> w = SExit"
    using i w inv nth_mem[of i "s_workers s"] by (auto simp: inv_exit_def)
  show ?thesis
    by (cases "(i, w, s)" rule: sworker_fault.cases)
       (use inv nex in \<open>auto simp: inv_exit_def set_sworker_def elim!: in_set_updE\<close>)
qed

lemma inv_exit_main: "inv_exit s \<Longrightarrow> inv_exit (smain_step (s_main s) s)"
  by (cases "s_main s")
     (auto simp: inv_exit_def joined_def send_def s_panic_def
        s_try_send_progress_def try_send_def Scanner_Close_def
        split: sent.splits option.splits)

lemma inv_exit_monitor: "inv_exit s \<Longrightarrow> inv_exit (smonitor_step e m s)"
  by (cases "(e, m, s)" rule: smonitor_step.cases)
     (auto simp: inv_exit_def s_try_send_progress_def try_send_def s_panic_def
        split: option.splits)

lemma inv_exit_step:
  assumes "inv_exit s"
  shows "inv_exit (scan_step e s)"
proof (cases e)
  case (Worker i)
  then show ?thesis
    using assms inv_exit_worker[of i s "s_workers s ! i"]
    by (auto simp: scan_step_def)
next
  case (Fault i)
  then show ?thesis
    using assms inv_exit_fault[of i s "s_workers s ! i"]
    by (auto simp: scan_step_def)
next
  case MainStep
  then show ?thesis using assms inv_exit_main[of s] by (simp add: scan_step_def)
qed (use assms inv_exit_monitor[of s e "s_monitor s"] in
      \<open>auto simp: scan_step_def inv_exit_def Scanner_Cancel_def\<close>)

lemma scan_run_invs:
  assumes "inv_ok s" and "inv_count rt s" and "inv_exit s" and "no_fault sched"
  shows "inv_ok (scan_run sched s) \<and> inv_count rt (scan_run sched s) \<and> inv_exit (scan_run sched s)"
  using assms unfolding scan_run_def
proof (induction sched arbitrary: s)
  case Nil
  then show ?case by simp
next
  case (Cons e sched)
  from Cons.prems(4) have nf: "\<forall>i. e \<noteq> Fault i" and rest: "no_fault sched"
    by (auto simp: no_fault_def)
  show ?case
    using Cons.IH[OF inv_ok_step[OF Cons.prems(1)] inv_count_step[OF Cons.prems(1,2) nf]
                     inv_exit_step[OF Cons.prems(3)] rest]
    by simp
qed

lemma ScanDirectory_invs:
  assumes "NewScanner e ncpu t0 = Some sc" and "wf_node t"
  shows "inv_ok (ScanDirectory sc e t tnow rt) \<and> inv_count rt (ScanDirectory sc e t tnow rt)
         \<and> inv_exit (ScanDirectory sc e t tnow rt)"
  using assms
  by (auto simp: NewScanner_def ScanDirectory_def Let_def inv_ok_def inv_count_def inv_exit_def
        joined_def scan_total_def main_pending_def make_chan_def Scanner.extend_def scan.fields_def
        sum_list_replicate split: if_splits)

lemma tree_ScanDirectory [simp]: "tree (ScanDirectory sc e t tnow rt) = t"
  by (simp add: ScanDirectory_def Let_def Scanner.extend_def scan.fields_def)

lemma pending_all_exit: "\<forall>w \<in> set ws. w = SExit \<Longrightarrow> sum_list (map (pending t) ws) = 0"
  by (induction ws) auto

lemma counters_le_refl [simp]: "counters_le p p"
  by (simp add: counters_le_def)

lemma progress_le_refl [simp]: "progress_le p p"
  by (simp add: progress_le_def)

lemma progress_le_trans: "progress_le p q \<Longrightarrow> progress_le q r \<Longrightarrow> progress_le p r"
  by (auto simp: progress_le_def counters_le_def)

lemma node_size_nonneg: "0 \<le> node_size n"
  by (cases n) auto

lemma entries_count_Nil [simp]: "entries_count t d [] = 0"
  by (simp add: entries_count_def)

lemma entries_count_Cons [simp]:
  "entries_count t d (e # es) = entry_count t d e + entries_count t d es"
  by (simp add: entries_count_def)

lemma entries_bytes_Nil [simp]: "entries_bytes t d [] = 0"
  by (simp add: entries_bytes_def)

lemma entries_bytes_Cons [simp]:
  "entries_bytes t d (e # es) = entry_bytes t d e + entries_bytes t d es"
  by (simp add: entries_bytes_def)

lemma entries_files_count: "entries_files t d es = int (entries_count t d es)"
  by (induction es) (auto simp: entries_files_def entry_files_def entry_count_def)

lemma ReadDir_count:
  assumes "wf_node t" and "ReadDir t d = Inr es"
  shows "files_under t d = entries_count t d es"
  using ReadDir_files[OF assms] by (simp add: entries_files_count)

lemma nth_le_sum_list:
  "i < length xs \<Longrightarrow> int (f (xs ! i)) \<le> sum_list (map (\<lambda>x. int (f x)) xs)"
proof (induction xs arbitrary: i)
  case Nil
  then show ?case by simp
next
  case (Cons x xs)
  have "0 \<le> sum_list (map (\<lambda>x. int (f x)) xs)" by (auto intro!: sum_list_nonneg)
  with Cons show ?case by (cases i) (auto simp: add_increasing)
qed

lemma bytes_children:
  assumes "lookup t d = Some (Directory es0)" and "set es \<subseteq> set es0" and "distinct (map fst es0)"
  shows "sum_list (map (\<lambda>e. total_bytes (snd e)) es) =
           entries_bytes t d (map (\<lambda>e. (fst e, is_dir (snd e))) es)"
  using assms
proof (induction es)
  case Nil
  then show ?case by simp
next
  case (Cons e es)
  obtain n c where e: "e = (n, c)" by (cases e)
  from Cons.prems e have "map_of es0 n = Some c" by auto
  then have lk: "lookup t (d @ [n]) = Some c" using Cons.prems(1) by (simp add: lookup_append)
  have "entry_bytes t d (n, is_dir c) = total_bytes c"
    by (cases c) (simp_all add: entry_bytes_def bytes_under_def size_at_def lk)
  with Cons e show ?case by simp
qed

lemma ReadDir_bytes:
  assumes "wf_node t" and "ReadDir t d = Inr es"
  shows "bytes_under t d = entries_bytes t d es"
proof -
  from assms(2) obtain es0 where lk: "lookup t d = Some (Directory es0)"
    and es: "es = map (\<lambda>e. (fst e, is_dir (snd e))) es0"
    by (auto simp: ReadDir_def split: option.splits node.splits)
  from wf_lookup[OF assms(1) lk] have d: "distinct (map fst es0)" by simp
  show ?thesis using bytes_children[OF lk subset_refl d] lk es by (simp add: bytes_under_def)
qed

lemma Lstat_size: "Lstat t p = Inr sz \<Longrightarrow> 0 \<le> sz \<and> nat sz \<le> size_at t p"
  by (auto simp: Lstat_def size_at_def split: option.splits node.splits)

lemma wrap64_id: "0 \<le> x \<Longrightarrow> x < 2 ^ 63 \<Longrightarrow> wrap64 x = x"
  by (simp add: wrap64_def)

text \<open>Under \<open>inv_bound\<close> the two additions of a worker do not wrap.\<close>

lemma count_no_wrap:
  assumes i: "i < length (s_workers s)" and w: "s_workers s ! i = SCount fi es"
    and inv: "inv_bound rt s"
  shows "wrap64 (totalFiles s + 1) = totalFiles s + 1"
proof -
  have "totalFiles s + 1 \<le> int (files_under (tree s) rt)" and "0 \<le> totalFiles s"
    using inv nth_le_sum_list[OF i, of "uncounted (tree s)"] w by (auto simp: inv_bound_def)
  with inv show ?thesis by (intro wrap64_id) (auto simp: inv_bound_def)
qed

lemma size_no_wrap:
  assumes i: "i < length (s_workers s)" and w: "s_workers s ! i = SCountSize fi es"
    and sz: "\<forall>v \<in> set (s_workers s). size_ok v" and inv: "inv_bound rt s"
  shows "wrap64 (totalSize s + FileInfo.Size fi) = totalSize s + FileInfo.Size fi"
    and "0 \<le> FileInfo.Size fi"
proof -
  show nn: "0 \<le> FileInfo.Size fi" using i w sz nth_mem[of i "s_workers s"] by auto
  have "totalSize s + FileInfo.Size fi \<le> int (bytes_under (tree s) rt)"
    using inv nth_le_sum_list[OF i, of "unsized (tree s)"] w nn by (auto simp: inv_bound_def)
  with inv nn show "wrap64 (totalSize s + FileInfo.Size fi) = totalSize s + FileInfo.Size fi"
    by (intro wrap64_id) (auto simp: inv_bound_def)
qed

lemma inv_bound_worker:
  assumes wf: "wf_node (tree s)" and cp: "0 < cap (dirCh s)"
    and sz: "\<forall>v \<in> set (s_workers s). size_ok v"
    and i: "i < length (s_workers s)" and w: "s_workers s ! i = w"
    and inv: "inv_bound rt s"
  shows "inv_bound rt (sworker_step i w s)"
proof -
  have so: "size_ok w" using i w sz nth_mem[of i "s_workers s"] by auto
  show ?thesis
  proof (cases "(i, w, s)" rule: sworker_step.cases)
    case (3 i' d s')
    then show ?thesis
      using i w inv ReadDir_count[OF wf, of d] ReadDir_bytes[OF wf, of d]
      by (auto simp: inv_bound_def set_sworker_def sum_list_map_update split: sum.splits)
  next
    case (10 i' d p es s')
    then show ?thesis using i w inv Lstat_size[of "tree s" p]
      by (auto simp: inv_bound_def set_sworker_def sum_list_map_update split: sum.splits)
  next
    case (12 i' fi es s')
    then show ?thesis using i w inv so count_no_wrap[OF i _ inv, of fi es]
      by (auto simp: inv_bound_def set_sworker_def sum_list_map_update)
  next
    case (13 i' fi es s')
    then show ?thesis using i w inv so size_no_wrap[OF i _ sz inv, of fi es]
      by (auto simp: inv_bound_def set_sworker_def sum_list_map_update)
  qed (use i w inv cp so in \<open>auto simp: inv_bound_def set_sworker_def sum_list_map_update
        s_try_send_err_def s_panic_def Let_def wg_done_def send_def try_send_def
        entry_count_def entry_bytes_def
        split: list.splits sent.splits option.splits\<close>)
qed

lemma inv_bound_fault:
  assumes i: "i < length (s_workers s)" and w: "s_workers s ! i = w" and inv: "inv_bound rt s"
  shows "inv_bound rt (sworker_fault i w s)"
  by (cases "(i, w, s)" rule: sworker_fault.cases)
     (use assms in \<open>auto simp: inv_bound_def set_sworker_def sum_list_map_update\<close>)

lemma inv_bound_main:
  "0 < cap (dirCh s) \<Longrightarrow> inv_bound rt s \<Longrightarrow> inv_bound rt (smain_step (s_main s) s)"
  by (cases "s_main s")
     (auto simp: inv_bound_def main_files_def main_bytes_def send_def s_panic_def
        s_try_send_progress_def try_send_def Scanner_Close_def
        split: sent.splits option.splits)

lemma inv_bound_monitor: "inv_bound rt s \<Longrightarrow> inv_bound rt (smonitor_step e m s)"
  by (cases "(e, m, s)" rule: smonitor_step.cases)
     (auto simp: inv_bound_def s_try_send_progress_def try_send_def s_panic_def
        split: option.splits)

lemma inv_bound_step:
  assumes "inv_ok s" and "inv_clock s" and "inv_bound rt s"
  shows "inv_bound rt (scan_step e s)"
proof (cases e)
  case (Worker i)
  then show ?thesis
    using assms inv_bound_worker[of s i "s_workers s ! i" rt]
    by (auto simp: scan_step_def inv_ok_def inv_clock_def)
next
  case (Fault i)
  then show ?thesis
    using assms inv_bound_fault[of i s "s_workers s ! i" rt] by (auto simp: scan_step_def)
next
  case MainStep
  then show ?thesis using assms inv_bound_main[of s rt] by (simp add: scan_step_def inv_ok_def)
qed (use assms inv_bound_monitor[of rt s e "s_monitor s"] in
      \<open>auto simp: scan_step_def inv_bound_def Scanner_Cancel_def\<close>)

lemma inv_clock_worker:
  assumes "inv_clock s" and "size_ok w"
  shows "inv_clock (sworker_step i w s)"
  by (cases "(i, w, s)" rule: sworker_step.cases)
     (use assms in \<open>auto simp: inv_clock_def set_sworker_def s_try_send_err_def s_panic_def
        Let_def wg_done_def send_def try_send_def Lstat_def node_size_nonneg
        split: list.splits sent.splits option.splits sum.splits elim!: in_set_updE\<close>)

lemma inv_clock_fault:
  assumes "inv_clock s" and "size_ok w"
  shows "inv_clock (sworker_fault i w s)"
  by (cases "(i, w, s)" rule: sworker_fault.cases)
     (use assms in \<open>auto simp: inv_clock_def set_sworker_def elim!: in_set_updE\<close>)

lemma inv_clock_main: "inv_clock s \<Longrightarrow> inv_clock (smain_step m s)"
  by (cases m)
     (auto simp: inv_clock_def send_def s_panic_def
        s_try_send_progress_def try_send_def Scanner_Close_def
        split: sent.splits option.splits)

lemma inv_clock_monitor: "inv_clock s \<Longrightarrow> inv_clock (smonitor_step e m s)"
  by (cases "(e, m, s)" rule: smonitor_step.cases)
     (auto simp: inv_clock_def s_try_send_progress_def try_send_def s_panic_def
        split: option.splits)

lemma inv_clock_step:
  assumes "inv_clock s"
  shows "inv_clock (scan_step e s)"
proof (cases e)
  case (Worker i)
  then show ?thesis
    using assms inv_clock_worker[of s "s_workers s ! i" i]
    by (auto simp: scan_step_def inv_clock_def)
next
  case (Fault i)
  then show ?thesis
    using assms inv_clock_fault[of s "s_workers s ! i" i]
    by (auto simp: scan_step_def inv_clock_def)
next
  case MainStep
  then show ?thesis using assms inv_clock_main[of s] by (simp add: scan_step_def)
qed (use assms inv_clock_monitor[of s e "s_monitor s"] in
      \<open>auto simp: scan_step_def inv_clock_def Scanner_Cancel_def\<close>)

lemma snapshot_sel [simp]:
  "Progress.TotalFiles (scan_snapshot s) = totalFiles s"
  "Progress.TotalSize (scan_snapshot s) = totalSize s"
  "Progress.ElapsedTime (scan_snapshot s) = int (s_now s) - int (Scanner.startTime s)"
  by (simp_all add: scan_snapshot_def Let_def)

lemma snapshot_worker:
  assumes sz: "\<forall>v \<in> set (s_workers s). size_ok v"
    and i: "i < length (s_workers s)" and w: "s_workers s ! i = w"
    and inv: "inv_bound rt s"
  shows "progress_le (scan_snapshot s) (scan_snapshot (sworker_step i w s))"
proof (cases "(i, w, s)" rule: sworker_step.cases)
  case (12 i' fi es s')
  then show ?thesis using w count_no_wrap[OF i _ inv, of fi es]
    by (auto simp: progress_le_def counters_le_def set_sworker_def)
next
  case (13 i' fi es s')
  then show ?thesis using w size_no_wrap[OF i _ sz inv, of fi es]
    by (auto simp: progress_le_def counters_le_def set_sworker_def)
qed (auto simp: progress_le_def counters_le_def set_sworker_def s_try_send_err_def
        s_panic_def Let_def wg_done_def send_def try_send_def
        split: list.splits sent.splits option.splits sum.splits)

lemma progressCh_worker [simp]:
  "Scanner.progressCh (sworker_step i w s) = Scanner.progressCh s"
  by (cases "(i, w, s)" rule: sworker_step.cases)
     (auto simp: set_sworker_def s_try_send_err_def
        s_panic_def Let_def wg_done_def send_def try_send_def
        split: list.splits sent.splits option.splits sum.splits)

lemma monitor_worker [simp]: "s_monitor (sworker_step i w s) = s_monitor s"
  by (cases "(i, w, s)" rule: sworker_step.cases)
     (auto simp: set_sworker_def s_try_send_err_def
        s_panic_def Let_def wg_done_def send_def try_send_def
        split: list.splits sent.splits option.splits sum.splits)

lemma main_worker [simp]: "s_main (sworker_step i w s) = s_main s"
  by (cases "(i, w, s)" rule: sworker_step.cases)
     (auto simp: set_sworker_def s_try_send_err_def
        s_panic_def Let_def wg_done_def send_def try_send_def
        split: list.splits sent.splits option.splits sum.splits)

lemma snapshot_fault: "progress_le (scan_snapshot s) (scan_snapshot (sworker_fault i w s))"
  by (cases "(i, w, s)" rule: sworker_fault.cases)
     (auto simp: progress_le_def counters_le_def set_sworker_def)

lemma progressCh_fault [simp]: "Scanner.progressCh (sworker_fault i w s) = Scanner.progressCh s"
  by (cases "(i, w, s)" rule: sworker_fault.cases) (auto simp: set_sworker_def)

lemma monitor_fault [simp]: "s_monitor (sworker_fault i w s) = s_monitor s"
  by (cases "(i, w, s)" rule: sworker_fault.cases) (auto simp: set_sworker_def)

lemma main_fault [simp]: "s_main (sworker_fault i w s) = s_main s"
  by (cases "(i, w, s)" rule: sworker_fault.cases) (auto simp: set_sworker_def)

lemma inv_below_mono:
  assumes "inv_below s" and "progress_le (scan_snapshot s) (scan_snapshot s')"
    and "Scanner.progressCh s' = Scanner.progressCh s" and "s_monitor s' = s_monitor s"
  shows "inv_below s'"
  using assms
  by (auto simp: inv_below_def sampled_le_def split: smonitor.splits intro: progress_le_trans)

lemma inv_below_main:
  "inv_final s \<Longrightarrow> inv_below s \<Longrightarrow> inv_below (smain_step (s_main s) s)"
  by (cases "s_main s")
     (auto simp: inv_below_def inv_final_def sampled_le_def send_def s_panic_def progress_le_def
        counters_le_def s_try_send_progress_def try_send_def Scanner_Close_def
        split: sent.splits option.splits smonitor.splits)

lemma inv_below_monitor: "inv_below s \<Longrightarrow> inv_below (smonitor_step e (s_monitor s) s)"
  by (cases "(e, s_monitor s, s)" rule: smonitor_step.cases)
     (auto simp: inv_below_def sampled_le_def progress_le_def counters_le_def
        s_try_send_progress_def try_send_def s_panic_def
        split: option.splits smonitor.splits)

lemma inv_below_step:
  assumes "inv_clock s" and "inv_bound rt s" and "inv_below s" and "inv_final s"
  shows "inv_below (scan_step e s)"
proof (cases e)
  case (Worker i)
  then show ?thesis
    using assms inv_below_mono[OF assms(3) snapshot_worker[of s i "s_workers s ! i" rt]]
    by (auto simp: scan_step_def inv_clock_def)
next
  case (Fault i)
  then show ?thesis
    using assms inv_below_mono[OF assms(3) snapshot_fault[of s i "s_workers s ! i"]]
    by (auto simp: scan_step_def)
next
  case MainStep
  then show ?thesis using assms inv_below_main[of s] by (simp add: scan_step_def)
next
  case (Clock d)
  then show ?thesis using assms
    by (auto simp: scan_step_def inv_below_def sampled_le_def progress_le_def counters_le_def
          split: smonitor.splits)
qed (use assms inv_below_monitor[of s e] in
      \<open>auto simp: scan_step_def inv_below_def sampled_le_def progress_le_def counters_le_def
         Scanner_Cancel_def split: smonitor.splits\<close>)

lemma inv_final_step:
  assumes "inv_exit s" and "inv_final s"
  shows "inv_final (scan_step e s)"
proof (cases e)
  case (Worker i)
  show ?thesis
  proof (cases "joined (s_main s) \<and> i < length (s_workers s)")
    case True
    then have "s_workers s ! i = SExit" using assms(1) nth_mem[of i "s_workers s"]
      by (auto simp: inv_exit_def)
    with Worker assms(2) show ?thesis by (simp add: scan_step_def)
  next
    case False
    with Worker assms(2) show ?thesis
      by (auto simp: scan_step_def inv_final_def joined_def split: smain.splits)
  qed
next
  case (Fault i)
  show ?thesis
  proof (cases "joined (s_main s) \<and> i < length (s_workers s)")
    case True
    then have "s_workers s ! i = SExit" using assms(1) nth_mem[of i "s_workers s"]
      by (auto simp: inv_exit_def)
    with Fault assms(2) show ?thesis by (simp add: scan_step_def)
  next
    case False
    with Fault assms(2) show ?thesis
      by (auto simp: scan_step_def inv_final_def joined_def split: smain.splits)
  qed
next
  case MainStep
  then show ?thesis using assms(2)
    by (cases "s_main s")
       (auto simp: scan_step_def inv_final_def send_def s_panic_def s_try_send_progress_def
          try_send_def Scanner_Close_def split: sent.splits option.splits)
next
  case MonTick
  then show ?thesis using assms(2)
    by (cases "(e, s_monitor s, s)" rule: smonitor_step.cases)
       (auto simp: scan_step_def inv_final_def split: smain.splits)
next
  case MonSend
  then show ?thesis using assms(2)
    by (cases "(e, s_monitor s, s)" rule: smonitor_step.cases)
       (auto simp: scan_step_def inv_final_def s_try_send_progress_def try_send_def s_panic_def
          split: smain.splits option.splits)
next
  case MonDone
  then show ?thesis using assms(2)
    by (cases "(e, s_monitor s, s)" rule: smonitor_step.cases)
       (auto simp: scan_step_def inv_final_def split: smain.splits)
qed (use assms(2) in \<open>auto simp: scan_step_def inv_final_def Scanner_Cancel_def
       split: smain.splits\<close>)

lemma inv_sorted_main:
  assumes "inv_sorted s"
  shows "inv_sorted (smain_step (s_main s) s)"
  by (cases "s_main s")
     (use assms in \<open>auto simp: inv_sorted_def final_pending_def
        send_def s_panic_def s_try_send_progress_def try_send_def Scanner_Close_def
        split: sent.splits option.splits\<close>)

lemma inv_sorted_monitor:
  assumes "inv_below s" and "inv_sorted s"
  shows "inv_sorted (smonitor_step e (s_monitor s) s)"
  by (cases "(e, s_monitor s, s)" rule: smonitor_step.cases)
     (use assms in \<open>auto simp: inv_sorted_def inv_below_def le_sampled_def sampled_le_def
        s_try_send_progress_def try_send_def s_panic_def sorted_wrt_append
        split: option.splits smonitor.splits\<close>)

lemma inv_sorted_step:
  assumes "inv_below s" and "inv_sorted s"
  shows "inv_sorted (scan_step e s)"
proof (cases e)
  case (Worker i)
  then show ?thesis using assms by (auto simp: scan_step_def inv_sorted_def)
next
  case (Fault i)
  then show ?thesis using assms by (auto simp: scan_step_def inv_sorted_def)
next
  case MainStep
  then show ?thesis using assms inv_sorted_main[of s] by (simp add: scan_step_def)
qed (use assms inv_sorted_monitor[of s e] in
      \<open>auto simp: scan_step_def inv_sorted_def Scanner_Cancel_def\<close>)

lemma scan_run_mono_invs:
  assumes "inv_ok s" and "inv_exit s" and "inv_clock s" and "inv_bound rt s" and "inv_below s"
    and "inv_final s" and "inv_sorted s"
  shows "inv_below (scan_run sched s) \<and> inv_final (scan_run sched s) \<and>
         inv_sorted (scan_run sched s)"
  using assms unfolding scan_run_def
proof (induction sched arbitrary: s)
  case Nil
  then show ?case by simp
next
  case (Cons e sched)
  show ?case
    using Cons.IH[OF inv_ok_step[OF Cons.prems(1)] inv_exit_step[OF Cons.prems(2)]
                     inv_clock_step[OF Cons.prems(3)] inv_bound_step[OF Cons.prems(1,3,4)]
                     inv_below_step[OF Cons.prems(3,4,5,6)] inv_final_step[OF Cons.prems(2,6)]
                     inv_sorted_step[OF Cons.prems(5,7)]]
    by simp
qed

lemma ScanDirectory_mono_invs:
  assumes "NewScanner e ncpu t0 = Some sc"
    and "int (files_under t rt) < 2 ^ 63" and "int (bytes_under t rt) < 2 ^ 63"
  shows "inv_clock (ScanDirectory sc e t tnow rt) \<and> inv_bound rt (ScanDirectory sc e t tnow rt)
         \<and> inv_below (ScanDirectory sc e t tnow rt) \<and> inv_final (ScanDirectory sc e t tnow rt)
         \<and> inv_sorted (ScanDirectory sc e t tnow rt)"
  using assms
  by (auto simp: NewScanner_def ScanDirectory_def Let_def inv_clock_def inv_bound_def
        inv_below_def inv_final_def inv_sorted_def main_files_def main_bytes_def
        sampled_le_def le_sampled_def make_chan_def Scanner.extend_def scan.fields_def
        sum_list_replicate split: if_splits)

lemma replicate_numeral: "replicate (numeral v) x = x # replicate (pred_numeral v) x"
  by (simp add: numeral_eq_Suc)

lemmas scan_defs = scan_run_def scan_step_def ScanDirectory_def NewScanner_def
  Scanner.extend_def scan.fields_def make_chan_def getEnvInt_def getEnvBool_def default_env_def
  ReadDir_def Lstat_def set_sworker_def s_panic_def wg_done_def s_try_send_err_def
  send_def try_send_def full_def enqueue_def accept_def hand_over_def dequeue_def recv_def
  close_chan_def Scanner_Close_def s_try_send_progress_def scan_snapshot_def wrap64_def
  seconds_def Scanner_Cancel_def Let_def replicate_numeral

section \<open>The claims about the scanner\<close>

text \<open>
  C3, as amended.  For every well-formed directory tree, a scan that runs to
  completion (the streams are closed) without cancellation and in which no system
  call fails emits exactly as many \<^verbatim>\<open>FileInfo\<close> records on the file stream as there are
  non-directory entries below the scanned root: hidden files count like any other
  (the scanner never looks at a name), directories are not emitted.  This holds for
  every setting of the environment with which \<^verbatim>\<open>NewScanner\<close> returns, so also for an
  unbuffered file stream (\<^verbatim>\<open>SCANNER_FILES_BUF=0\<close>).
\<close>

theorem scan_emits_every_file:
  assumes "NewScanner e ncpu t0 = Some sc" and "wf_node t" and "no_fault sched"
    and "s = scan_run sched (ScanDirectory sc e t tnow rt)"
    and "s_main s = MExit" and "\<not> Scanner.canceled s"
  shows "length (hist (filesCh s)) = files_under t rt"
proof -
  from ScanDirectory_invs[OF assms(1,2)] scan_run_invs[OF _ _ _ assms(3)] assms(4)
  have cnt: "inv_count rt s" and ext: "inv_exit s" by blast+
  from ext assms(5)
  have ex: "\<forall>w \<in> set (s_workers s). w = SExit" and ne: "s_workers s \<noteq> []"
    by (auto simp: inv_exit_def joined_def)
  from ne obtain w where "w \<in> set (s_workers s)" by (cases "s_workers s") auto
  with ex have "\<exists>w \<in> set (s_workers s). w = SExit" by blast
  with ext have "buf (dirCh s) = []" by (simp add: inv_exit_def)
  moreover from ex have "sum_list (map (pending (tree s)) (s_workers s)) = 0"
    by (rule pending_all_exit)
  ultimately show ?thesis using cnt assms(4,5,6)
    by (simp add: inv_count_def scan_total_def main_pending_def)
qed

text \<open>
  The theorem at the example scenario with 8 workers, under the defaults and with an
  unbuffered file stream whose consumer waits in its receive: both scans complete
  and emit the 2 files.
\<close>

theorem scan_emits_every_file_witness:
  "NewScanner default_env 1 0 \<noteq> None \<and> wf_node example_tree \<and> no_fault example_scan_schedule \<and>
   s_main example_scan = MExit \<and> \<not> Scanner.canceled example_scan \<and>
   length (hist (filesCh example_scan)) = 2 \<and> files_under example_tree [''src''] = 2 \<and>
   NewScanner unbuffered_env 1 0 \<noteq> None \<and> no_fault unbuffered_schedule \<and>
   cap (filesCh unbuffered_scan) = 0 \<and>
   s_main unbuffered_scan = MExit \<and> \<not> Scanner.canceled unbuffered_scan \<and>
   length (hist (filesCh unbuffered_scan)) = 2"
proof -
  have 1: "NewScanner default_env 1 0 = Some (the (NewScanner default_env 1 0))"
    by (simp add: scan_defs)
  have 2: "wf_node example_tree" by (simp add: example_tree_def)
  have 3: "no_fault example_scan_schedule"
    by (simp add: no_fault_def example_scan_schedule_def all_workers_exit_def finish_def
          replicate_numeral)
  have 5: "s_main example_scan = MExit" and 6: "\<not> Scanner.canceled example_scan"
    by (simp_all add: example_scan_def example_scan_schedule_def all_workers_exit_def finish_def
          example_tree_def scan_defs)
  have 7: "files_under example_tree [''src''] = 2"
    by (simp add: files_under_def example_tree_def)
  have u1: "NewScanner unbuffered_env 1 0 = Some (the (NewScanner unbuffered_env 1 0))"
    by (simp add: unbuffered_env_def scan_defs)
  have u3: "no_fault unbuffered_schedule"
    by (simp add: no_fault_def unbuffered_schedule_def all_workers_exit_def finish_def
          replicate_numeral)
  have u5: "s_main unbuffered_scan = MExit" and u6: "\<not> Scanner.canceled unbuffered_scan"
    and u7: "cap (filesCh unbuffered_scan) = 0"
    by (simp_all add: unbuffered_scan_def unbuffered_schedule_def unbuffered_env_def
          all_workers_exit_def finish_def example_tree_def scan_defs)
  from scan_emits_every_file[OF 1 2 3 example_scan_def 5 6]
    scan_emits_every_file[OF u1 2 u3 unbuffered_scan_def u5 u6] 1 2 3 5 6 7 u1 u3 u5 u6 u7
  show ?thesis by auto
qed

text \<open>
  On the unbuffered file stream the send is a rendezvous: while no consumer waits the
  worker stays at its send, holding the first record.
\<close>

lemma unbuffered_send_waits:
  "s_workers unbuffered_waiting ! 0 =
     SSend \<lparr>Path = [''src'', ''x.txt''], Size = 0, Dir = [''src'']\<rparr> [(''sub'', True)] \<and>
   hist (filesCh unbuffered_waiting) = [] \<and>
   scan_step (Worker 0) unbuffered_waiting = unbuffered_waiting \<and>
   map Path (hist (filesCh (scan_run [RecvFile, Worker 0] unbuffered_waiting))) =
     [[''src'', ''x.txt'']]"
  by (simp add: unbuffered_waiting_def unbuffered_env_def example_tree_def scan_defs)

text \<open>
  C3 as stated fails: the scan below completes without cancellation, the tree has one
  file, and no record is emitted, because listing \<^verbatim>\<open>/src/d\<close> failed; the worker
  reported the error and skipped the subtree, as the code intends.
\<close>

theorem scan_count_counterexample:
  "s_main locked_scan = MExit \<and> \<not> Scanner.canceled locked_scan \<and> wf_node locked_tree \<and>
   files_under locked_tree [''src''] = 1 \<and> length (hist (filesCh locked_scan)) = 0 \<and>
   hist (Scanner.errCh locked_scan) = [ErrReadDir [''src'', ''d'']]"
  by (simp add: locked_scan_def locked_schedule_def locked_tree_def all_workers_exit_def
        finish_def files_under_def scan_defs)




text \<open>
  C9, as amended.  Within one scan of a well-formed tree with fewer than \<open>2^63\<close>
  files and bytes below the scanned root, and for every interleaving: as long as the
  final snapshot has not been offered, the snapshots on the progress stream (the
  ticks of the monitor) are non-decreasing in \<^verbatim>\<open>TotalFiles\<close>, \<^verbatim>\<open>TotalSize\<close> and
  \<^verbatim>\<open>ElapsedTime\<close>; and after the next step of the main goroutine, which may be the
  send of the final snapshot, the stream is still non-decreasing in \<^verbatim>\<open>TotalFiles\<close> and
  \<^verbatim>\<open>TotalSize\<close>.  (\<^verbatim>\<open>Speed\<close> is not part of either order, and \<^verbatim>\<open>ElapsedTime\<close> is not part
  of the order that includes the final snapshot.)
\<close>

theorem scan_progress_monotone:
  assumes "NewScanner e ncpu t0 = Some sc" and "wf_node t"
    and "int (files_under t rt) < 2 ^ 63" and "int (bytes_under t rt) < 2 ^ 63"
    and "s = scan_run sched (ScanDirectory sc e t tnow rt)"
    and "final_pending (s_main s)"
  shows "sorted_wrt progress_le (hist (Scanner.progressCh s)) \<and>
         sorted_wrt counters_le (hist (Scanner.progressCh (scan_step MainStep s)))"
proof -
  from ScanDirectory_invs[OF assms(1,2)] ScanDirectory_mono_invs[OF assms(1,3,4)]
    scan_run_mono_invs[of "ScanDirectory sc e t tnow rt" rt sched] assms(5)
  have b: "inv_below s" and f: "inv_final s" and c: "inv_sorted s" by blast+
  from c assms(6) have 1: "sorted_wrt progress_le (hist (Scanner.progressCh s))"
    by (simp add: inv_sorted_def)
  then have 2: "sorted_wrt counters_le (hist (Scanner.progressCh s))"
    by (rule sorted_wrt_mono_rel[rotated]) (simp add: progress_le_def)
  have 3: "sorted_wrt counters_le (hist (Scanner.progressCh (scan_step MainStep s)))"
    by (cases "s_main s")
       (use b f 2 in \<open>auto simp: scan_step_def inv_below_def inv_final_def progress_le_def
          counters_le_def send_def s_panic_def sorted_wrt_append
          s_try_send_progress_def try_send_def Scanner_Close_def
          split: sent.splits option.splits\<close>)
  from 1 3 show ?thesis by simp
qed

text \<open>
  C9 as stated fails: \<^verbatim>\<open>Speed\<close> is files per elapsed second, so it falls from 1 to
  1/2 between two consecutive snapshots while no new file is found.
\<close>

theorem scan_throughput_counterexample:
  "map Progress.TotalFiles (hist (Scanner.progressCh slowing_scan)) = [1, 1] \<and>
   map Progress.ElapsedTime (hist (Scanner.progressCh slowing_scan)) = [1000000000, 2000000000] \<and>
   map Progress.Speed (hist (Scanner.progressCh slowing_scan)) = [1, 1 / 2]"
  by (simp add: slowing_scan_def slowing_schedule_def example_tree_def scan_defs)

text \<open>
  \<^verbatim>\<open>ElapsedTime\<close> is not kept through the final snapshot either.  In the racing run the
  main goroutine has built the final snapshot, half a second after the start, when
  the monitor ticks a microsecond later and sends first: the stream ends with the
  elapsed times 500001000 and 500000000.  The theorem on that run: the counters on
  the stream stay in order.
\<close>

theorem scan_progress_monotone_witness:
  "NewScanner default_env 1 0 \<noteq> None \<and> wf_node example_tree \<and>
   int (files_under example_tree [''src'']) < 2 ^ 63 \<and>
   int (bytes_under example_tree [''src'']) < 2 ^ 63 \<and>
   final_pending (s_main racing_scan) \<and>
   map Progress.ElapsedTime (hist (Scanner.progressCh racing_scan)) = [500001000] \<and>
   map Progress.ElapsedTime (hist (Scanner.progressCh (scan_step MainStep racing_scan))) =
     [500001000, 500000000] \<and>
   map Progress.TotalFiles (hist (Scanner.progressCh (scan_step MainStep racing_scan))) = [2, 2] \<and>
   sorted_wrt progress_le (hist (Scanner.progressCh racing_scan)) \<and>
   sorted_wrt counters_le (hist (Scanner.progressCh (scan_step MainStep racing_scan)))"
proof -
  have 1: "NewScanner default_env 1 0 = Some (the (NewScanner default_env 1 0))"
    by (simp add: scan_defs)
  have 2: "wf_node example_tree" by (simp add: example_tree_def)
  have 3: "int (files_under example_tree [''src'']) < 2 ^ 63"
    by (simp add: files_under_def example_tree_def)
  have 4: "int (bytes_under example_tree [''src'']) < 2 ^ 63"
    by (simp add: bytes_under_def example_tree_def)
  have 5: "final_pending (s_main racing_scan)"
    "map Progress.ElapsedTime (hist (Scanner.progressCh racing_scan)) = [500001000]"
    "map Progress.ElapsedTime (hist (Scanner.progressCh (scan_step MainStep racing_scan))) =
       [500001000, 500000000]"
    "map Progress.TotalFiles (hist (Scanner.progressCh (scan_step MainStep racing_scan))) = [2, 2]"
    by (simp_all add: racing_scan_def racing_schedule_def all_workers_exit_def example_tree_def
          final_pending_def scan_defs)
  from scan_progress_monotone[OF 1 2 3 4 racing_scan_def 5(1)] 1 2 3 4 5 show ?thesis by auto
qed

text \<open>
  After the final snapshot nothing orders the stream: \<^verbatim>\<open>monitorProgress\<close> is not
  waited for, and the snapshot it had sampled lands behind the final one.
\<close>

lemma stale_snapshot_after_final:
  "s_main stale_scan = MExit \<and> \<not> s_panicked stale_scan \<and>
   map Progress.TotalFiles (hist (Scanner.progressCh stale_scan)) = [2, 1]"
  by (simp add: stale_scan_def stale_schedule_def all_workers_exit_def example_tree_def scan_defs)

section \<open>Proofs about the copier\<close>

lemma map_of_update_entry:
  "map_of (update_entry x m es) y = (if y = x then Some m else map_of es y)"
  by (induction es) auto

lemma file_at_Nil: "file_at t [] = (case t of File c \<Rightarrow> Some c | Directory es \<Rightarrow> None)"
  by (simp add: file_at_def split: node.splits)

lemma file_at_Cons:
  "file_at t (y # ys) =
     (case t of File c \<Rightarrow> None
      | Directory es \<Rightarrow> (case map_of es y of None \<Rightarrow> None | Some m \<Rightarrow> file_at m ys))"
  by (simp add: file_at_def split: node.splits option.splits)

lemma file_at_empty_dir [simp]: "file_at (Directory []) q = None"
  by (cases q) (simp_all add: file_at_Nil file_at_Cons)

lemma file_at_MkdirAll: "MkdirAll t p = Some t' \<Longrightarrow> file_at t' q = file_at t q"
proof (induction t p arbitrary: t' q rule: MkdirAll.induct)
  case (1 n)
  then show ?case by (auto split: node.splits)
next
  case (2 n x xs)
  from "2.prems" obtain es m' where n: "n = Directory es"
    and m': "MkdirAll (case map_of es x of None \<Rightarrow> Directory [] | Some m \<Rightarrow> m) xs = Some m'"
    and t': "t' = Directory (update_entry x m' es)"
    by (auto split: node.splits option.splits)
  show ?case
  proof (cases q)
    case Nil
    then show ?thesis using n t' by (simp add: file_at_Nil)
  next
    case (Cons y ys)
    show ?thesis
    proof (cases "y = x")
      case True
      have "file_at m' ys = file_at (case map_of es x of None \<Rightarrow> Directory [] | Some m \<Rightarrow> m) ys"
        using "2.IH"[OF n m'] .
      then show ?thesis using n t' Cons True
        by (simp add: file_at_Cons map_of_update_entry split: option.splits)
    next
      case False
      then show ?thesis using n t' Cons
        by (simp add: file_at_Cons map_of_update_entry)
    qed
  qed
qed

lemma file_at_put_file:
  "put_file t p c = Some t' \<Longrightarrow> file_at t' q = (if q = p then Some c else file_at t q)"
proof (induction t p c arbitrary: t' q rule: put_file.induct)
  case (1 n c)
  then show ?case by (cases q) (auto simp: file_at_Nil file_at_Cons split: node.splits)
next
  case (2 n x xs c)
  from "2.prems" obtain es where n: "n = Directory es" by (auto split: node.splits)
  show ?case
  proof (cases "map_of es x")
    case None
    with "2.prems" n have xs: "xs = []" and t': "t' = Directory (update_entry x (File c) es)"
      by (auto split: if_splits)
    show ?thesis
    proof (cases q)
      case Nil
      then show ?thesis using n t' by (simp add: file_at_Nil)
    next
      case (Cons y ys)
      then show ?thesis using n t' xs None
        by (cases ys) (auto simp: file_at_Cons file_at_Nil map_of_update_entry)
    qed
  next
    case (Some m)
    with "2.prems" n obtain m' where m': "put_file m xs c = Some m'"
      and t': "t' = Directory (update_entry x m' es)"
      by (auto split: option.splits)
    have IH: "\<And>q. file_at m' q = (if q = xs then Some c else file_at m q)"
      using "2.IH"[OF n Some m'] .
    show ?thesis
    proof (cases q)
      case Nil
      then show ?thesis using n t' by (simp add: file_at_Nil)
    next
      case (Cons y ys)
      then show ?thesis using n t' Some IH
        by (auto simp: file_at_Cons map_of_update_entry)
    qed
  qed
qed

lemma exists_at_Cons:
  "exists_at t (y # ys) =
     (case t of File c \<Rightarrow> False
      | Directory es \<Rightarrow> (case map_of es y of None \<Rightarrow> False | Some m \<Rightarrow> exists_at m ys))"
  by (simp add: exists_at_def split: node.splits option.splits)

lemma exists_at_Nil [simp]: "exists_at t []"
  by (simp add: exists_at_def)

lemma not_exists_empty_dir: "exists_at (Directory []) (y # ys) = False"
  by (simp add: exists_at_Cons)



lemma file_at_ensure_dir [simp]: "file_at (ensure_dir src tgt p t) q = file_at t q"
  by (auto simp: ensure_dir_def Let_def file_at_MkdirAll split: sum.splits option.splits)


lemma file_at_walk:
  "file_at (walkDir k (ensure_dir src tgt) p t) q = file_at t q"
  "file_at (walkEntries k (ensure_dir src tgt) p es t) q = file_at t q"
  by (induction k "ensure_dir src tgt" p t and k "ensure_dir src tgt" p es t
      rule: walkDir_walkEntries.induct)
     (auto simp: Let_def split: sum.splits)


lemma idle_step:
  assumes "idle s"
  shows "idle (copy_step e s) \<and> fs (copy_step e s) = fs s \<and> emitted (copy_step e s) = emitted s"
  using assms
  by (cases e)
     (auto simp: idle_def emitted_def copy_step_def Copier_Cancel_def dequeue_def Copier_Close_def
        c_panic_def close_chan_def)

lemma idle_run:
  assumes "idle s"
  shows "idle (copy_run sched s) \<and> fs (copy_run sched s) = fs s \<and> emitted (copy_run sched s) = emitted s"
  using assms unfolding copy_run_def
proof (induction sched arbitrary: s)
  case Nil
  then show ?case by simp
next
  case (Cons e sched)
  from idle_step[OF Cons.prems, of e] Cons.IH[of "copy_step e s"] show ?case by simp
qed

lemma closing_step:
  assumes "closing s"
  shows "closing (copy_step e s) \<and>
         steps_to_close (c_main (copy_step e s)) =
           steps_to_close (c_main s) - (if e = MainStep then 1 else 0)"
  using assms
  by (cases e)
     (auto simp: closing_def idle_def streams_open_def streams_closed_def copy_step_def
        Copier_Cancel_def dequeue_def Copier_Close_def c_panic_def close_chan_def)

lemma closing_run:
  assumes "closing s" and "steps_to_close (c_main s) \<le> count_list sched MainStep"
  shows "streams_closed (copy_run sched s)"
  using assms unfolding copy_run_def
proof (induction sched arbitrary: s)
  case Nil
  then show ?case by (cases "c_main s") (auto simp: closing_def idle_def)
next
  case (Cons e sched)
  from closing_step[OF Cons.prems(1), of e] Cons.prems(2)
  have "closing (copy_step e s)"
    and "steps_to_close (c_main (copy_step e s)) \<le> count_list sched MainStep"
    by (auto split: if_splits)
  from Cons.IH[OF this] show ?case by simp
qed

lemma idle_CopyFilesParallel: "idle (CopyFilesParallel c t tnow pmax [])"
  by (simp add: idle_def CopyFilesParallel_def Copier.extend_def copy.fields_def)

section \<open>The claims about the copier\<close>

text \<open>
  C10.  Called with an empty file list, \<^verbatim>\<open>CopyFilesParallel\<close> leaves the file system as
  it is and puts nothing on the result, progress and error streams, whatever else
  happens meanwhile; and once its goroutine has run (it returns, then the deferred
  \<^verbatim>\<open>Close\<close> runs) the three streams are closed.  No directory is created, the target
  root included, since the file system does not change at all.
\<close>

theorem empty_file_list:
  assumes "\<not> closed (progressCh c)" and "\<not> closed (resultCh c)" and "\<not> closed (errCh c)"
    and "s = copy_run sched (CopyFilesParallel c t tnow pmax [])"
  shows "fs s = t \<and> hist (resultCh s) = hist (resultCh c) \<and>
         hist (progressCh s) = hist (progressCh c) \<and> hist (errCh s) = hist (errCh c) \<and>
         (2 \<le> count_list sched MainStep \<longrightarrow>
            closed (resultCh s) \<and> closed (progressCh s) \<and> closed (errCh s))"
proof -
  let ?s0 = "CopyFilesParallel c t tnow pmax []"
  have i: "idle ?s0" by (rule idle_CopyFilesParallel)
  have c: "closing ?s0"
    using assms(1-3) i
    by (simp add: closing_def streams_open_def CopyFilesParallel_def Copier.extend_def copy.fields_def)
  have m: "steps_to_close (c_main ?s0) = 2"
    by (simp add: CopyFilesParallel_def Copier.extend_def copy.fields_def)
  from idle_run[OF i, of sched] assms(4)
  have "fs s = t" and "emitted s = emitted ?s0"
    by (simp_all add: CopyFilesParallel_def Copier.extend_def copy.fields_def)
  moreover have "2 \<le> count_list sched MainStep \<longrightarrow> streams_closed s"
    using closing_run[OF c, of sched] m assms(4) by simp
  ultimately show ?thesis
    by (simp add: emitted_def streams_closed_def CopyFilesParallel_def Copier.extend_def copy.fields_def)
qed

lemma walkDir_numeral:
  "walkDir (numeral v) fn p t =
     (let t1 = fn p t
      in case ReadDir t1 p of Inl e \<Rightarrow> t1 | Inr es \<Rightarrow> walkEntries (pred_numeral v) fn p es t1)"
  by (simp add: numeral_eq_Suc)

lemmas copy_defs = copy_run_def copy_step_def CopyFilesParallel_def NewCopier_def SetWorkerCount_def
  SetTotal_def Copier.extend_def copy.fields_def make_chan_def ensureAllDirectories_def
  ensure_dir_def Rel_def ReadDir_def stat_size_def set_cworker_def failed_def succeeded_def
  Create_def Read_def Write_def buffer_len_def send_def try_send_def full_def enqueue_def
  accept_def hand_over_def dequeue_def recv_def close_chan_def Copier_Close_def Copier_sendFinalProgress_def
  c_try_send_progress_def progress_now_def tick_snapshot_def seconds_def c_panic_def
  Copier_Cancel_def Let_def walkDir_numeral replicate_numeral

text \<open>The theorem for a fresh copier on the tree of directories only.\<close>

theorem empty_file_list_witness:
  "\<not> closed (progressCh (NewCopier [''src''] [''dst''] False 1 0)) \<and>
   \<not> closed (resultCh (NewCopier [''src''] [''dst''] False 1 0)) \<and>
   \<not> closed (errCh (NewCopier [''src''] [''dst''] False 1 0)) \<and>
   2 \<le> count_list [MainStep, MainStep] MainStep \<and>
   fs dirs_only_copy = dirs_only_tree \<and>
   hist (resultCh dirs_only_copy) = [] \<and> hist (progressCh dirs_only_copy) = [] \<and>
   hist (errCh dirs_only_copy) = [] \<and>
   closed (resultCh dirs_only_copy) \<and> closed (progressCh dirs_only_copy) \<and>
   closed (errCh dirs_only_copy)"
proof -
  have 1: "\<not> closed (progressCh (NewCopier [''src''] [''dst''] False 1 0))"
    and 2: "\<not> closed (resultCh (NewCopier [''src''] [''dst''] False 1 0))"
    and 3: "\<not> closed (errCh (NewCopier [''src''] [''dst''] False 1 0))"
    by (simp_all add: NewCopier_def make_chan_def)
  have h: "hist (resultCh (NewCopier [''src''] [''dst''] False 1 0)) = []"
    "hist (progressCh (NewCopier [''src''] [''dst''] False 1 0)) = []"
    "hist (errCh (NewCopier [''src''] [''dst''] False 1 0)) = []"
    by (simp_all add: NewCopier_def make_chan_def)
  from empty_file_list[OF 1 2 3 dirs_only_copy_def] 1 2 3 h show ?thesis by simp
qed

text \<open>
  C2 fails on the code.  For the tree of directories only the file list is empty,
  \<^verbatim>\<open>CopyFilesParallel\<close> returns before \<^verbatim>\<open>ensureAllDirectories\<close>, and after the run neither
  \<^verbatim>\<open>/dst/a/b\<close> nor \<^verbatim>\<open>/dst\<close> exists, although \<^verbatim>\<open>/src/a/b\<close> does.  With a non-empty file
  list the first step of the goroutine does create the empty directory
  \<^verbatim>\<open>/dst/sub/empty\<close> of the example scenario.
\<close>

theorem empty_directories_not_created:
  "c_main dirs_only_copy = CExit \<and>
   lookup (fs dirs_only_copy) [''src'', ''a'', ''b''] = Some (Directory []) \<and>
   lookup (fs dirs_only_copy) [''dst'', ''a'', ''b''] = None \<and>
   lookup (fs dirs_only_copy) [''dst''] = None \<and>
   lookup (fs example_copy_started) [''dst'', ''sub'', ''empty''] = Some (Directory [])"
  by (simp add: dirs_only_copy_def dirs_only_tree_def example_copy_started_def example_files_def
        example_tree_def copy_defs)

lemma ensureAllDirectories_fields [simp]:
  "progress (ensureAllDirectories s) = progress s"
  "c_workers (ensureAllDirectories s) = c_workers s"
  "c_main (ensureAllDirectories s) = c_main s"
  "c_monitor (ensureAllDirectories s) = c_monitor s"
  "fileChan (ensureAllDirectories s) = fileChan s"
  "files (ensureAllDirectories s) = files s"
  "attempted (ensureAllDirectories s) = attempted s"
  "progressCh (ensureAllDirectories s) = progressCh s"
  "resultCh (ensureAllDirectories s) = resultCh s"
  "errCh (ensureAllDirectories s) = errCh s"
  "c_panicked (ensureAllDirectories s) = c_panicked s"
  "canceled (ensureAllDirectories s) = canceled s"
  "c_done (ensureAllDirectories s) = c_done s"
  "workerCount (ensureAllDirectories s) = workerCount s"
  "sourceDir (ensureAllDirectories s) = sourceDir s"
  "targetDir (ensureAllDirectories s) = targetDir s"
  "c_now (ensureAllDirectories s) = c_now s"
  "startTime (ensureAllDirectories s) = startTime s"
  "bufferSize (ensureAllDirectories s) = bufferSize s"
  by (simp_all add: ensureAllDirectories_def split: option.splits node.splits)

lemma cinv_pc_worker:
  assumes "cinv_pc s" and "i < length (c_workers s)" and "c_workers s ! i = w"
  shows "cinv_pc (cworker_step i w s)"
proof -
  have nd: "workers_done (c_main s) \<longrightarrow> w = WExit"
    using assms nth_mem[of i "c_workers s"] by (auto simp: cinv_pc_def)
  have ns: "c_main s \<noteq> CStart" using assms by (auto simp: cinv_pc_def)
  show ?thesis
    by (cases "(i, w, s)" rule: cworker_step.cases)
       (use assms(1) nd ns in \<open>auto simp: cinv_pc_def set_cworker_def streams_open_def workers_done_def
          send_def enqueue_def dequeue_def c_panic_def
          split: list.splits sent.splits option.splits sum.splits cmain.splits
          elim!: in_set_updE\<close>)
qed

lemma cinv_pc_fault:
  assumes "cinv_pc s" and "i < length (c_workers s)" and "c_workers s ! i = w"
  shows "cinv_pc (cworker_fault i w s)"
proof -
  have nd: "workers_done (c_main s) \<longrightarrow> w = WExit"
    using assms nth_mem[of i "c_workers s"] by (auto simp: cinv_pc_def)
  have ns: "c_main s \<noteq> CStart" using assms by (auto simp: cinv_pc_def)
  show ?thesis
    by (cases "(i, w, s)" rule: cworker_fault.cases)
       (use assms(1) nd ns in \<open>auto simp: cinv_pc_def set_cworker_def streams_open_def workers_done_def
          split: cmain.splits elim!: in_set_updE\<close>)
qed

lemma cinv_pc_main: "cinv_pc s \<Longrightarrow> cinv_pc (cmain_step (c_main s) s)"
  by (cases "c_main s")
     (auto simp: cinv_pc_def streams_open_def workers_done_def Let_def
        Copier_sendFinalProgress_def c_try_send_progress_def try_send_def enqueue_def
        Copier_Close_def close_chan_def c_panic_def
        split: option.splits)

lemma cinv_pc_monitor: "cinv_pc s \<Longrightarrow> cinv_pc (cmonitor_step e (c_monitor s) s)"
  by (cases "(e, c_monitor s, s)" rule: cmonitor_step.cases)
     (auto simp: cinv_pc_def streams_open_def workers_done_def
        c_try_send_progress_def try_send_def enqueue_def c_panic_def
        split: option.splits cmain.splits)

lemma cinv_pc_step:
  assumes "cinv_pc s"
  shows "cinv_pc (copy_step e s)"
proof (cases e)
  case (Worker i)
  then show ?thesis using assms cinv_pc_worker[of s i "c_workers s ! i"]
    by (auto simp: copy_step_def)
next
  case (Fault i)
  then show ?thesis using assms cinv_pc_fault[of s i "c_workers s ! i"]
    by (auto simp: copy_step_def)
next
  case MainStep
  then show ?thesis using assms cinv_pc_main[of s] by (simp add: copy_step_def)
qed (use assms cinv_pc_monitor[of s e] in
      \<open>auto simp: copy_step_def cinv_pc_def streams_open_def dequeue_def Copier_Cancel_def\<close>)

lemma cinv_count_worker:
  assumes "cinv_count s" and "i < length (c_workers s)" and "c_workers s ! i = w"
    and "c_main s \<noteq> CStart"
  shows "cinv_count (cworker_step i w s)"
  by (cases "(i, w, s)" rule: cworker_step.cases)
     (use assms in \<open>auto simp: cinv_count_def set_cworker_def sum_list_map_update
        send_def enqueue_def dequeue_def c_panic_def
        split: list.splits sent.splits option.splits sum.splits\<close>)

lemma cinv_count_fault:
  assumes "cinv_count s" and "i < length (c_workers s)" and "c_workers s ! i = w"
  shows "cinv_count (cworker_fault i w s)"
  by (cases "(i, w, s)" rule: cworker_fault.cases)
     (use assms in \<open>auto simp: cinv_count_def set_cworker_def sum_list_map_update\<close>)

lemma cinv_count_main:
  assumes "cinv_pc s" and "cinv_count s"
  shows "cinv_count (cmain_step (c_main s) s)"
  by (cases "c_main s")
     (use assms in \<open>auto simp: cinv_count_def cinv_pc_def Let_def
        Copier_sendFinalProgress_def c_try_send_progress_def try_send_def enqueue_def
        Copier_Close_def close_chan_def c_panic_def sum_list_replicate
        split: option.splits\<close>)

lemma cinv_count_monitor: "cinv_count s \<Longrightarrow> cinv_count (cmonitor_step e (c_monitor s) s)"
  by (cases "(e, c_monitor s, s)" rule: cmonitor_step.cases)
     (auto simp: cinv_count_def c_try_send_progress_def try_send_def enqueue_def c_panic_def
        split: option.splits)

lemma cinv_count_step:
  assumes "cinv_pc s" and "cinv_count s"
  shows "cinv_count (copy_step e s)"
proof (cases e)
  case (Worker i)
  have "i < length (c_workers s) \<Longrightarrow> c_main s \<noteq> CStart"
    using assms(1) by (auto simp: cinv_pc_def)
  with Worker show ?thesis using assms cinv_count_worker[of s i "c_workers s ! i"]
    by (auto simp: copy_step_def)
next
  case (Fault i)
  then show ?thesis using assms cinv_count_fault[of s i "c_workers s ! i"]
    by (auto simp: copy_step_def)
next
  case MainStep
  then show ?thesis using assms cinv_count_main[of s] by (simp add: copy_step_def)
qed (use assms cinv_count_monitor[of s e] in
      \<open>auto simp: copy_step_def cinv_count_def dequeue_def Copier_Cancel_def\<close>)

lemma progress_now_sel [simp]:
  "CompletedFiles (progress_now s) = CompletedFiles (progress s)"
  "FailedFiles (progress_now s) = FailedFiles (progress s)"
  "TotalFiles (progress_now s) = TotalFiles (progress s)"
  "CompletedSize (progress_now s) = CompletedSize (progress s)"
  "TotalSize (progress_now s) = TotalSize (progress s)"
  "SkippedFiles (progress_now s) = SkippedFiles (progress s)"
  by (simp_all add: progress_now_def Let_def)

lemma tick_snapshot_sel [simp]:
  "CompletedFiles (tick_snapshot s) = CompletedFiles (progress s)"
  "FailedFiles (tick_snapshot s) = FailedFiles (progress s)"
  "TotalFiles (tick_snapshot s) = TotalFiles (progress s)"
  "CompletedSize (tick_snapshot s) = CompletedSize (progress s)"
  "TotalSize (tick_snapshot s) = TotalSize (progress s)"
  "SkippedFiles (tick_snapshot s) = SkippedFiles (progress s)"
  by (simp_all add: tick_snapshot_def Let_def)

lemma progressCh_cworker_step [simp]: "progressCh (cworker_step i w s) = progressCh s"
  by (cases "(i, w, s)" rule: cworker_step.cases)
     (auto simp: set_cworker_def send_def c_panic_def
        split: list.splits sent.splits option.splits sum.splits)

lemma monitor_cworker_step [simp]: "c_monitor (cworker_step i w s) = c_monitor s"
  by (cases "(i, w, s)" rule: cworker_step.cases)
     (auto simp: set_cworker_def send_def c_panic_def
        split: list.splits sent.splits option.splits sum.splits)

lemma main_cworker_step [simp]: "c_main (cworker_step i w s) = c_main s"
  by (cases "(i, w, s)" rule: cworker_step.cases)
     (auto simp: set_cworker_def send_def c_panic_def
        split: list.splits sent.splits option.splits sum.splits)

lemma progressCh_cworker_fault [simp]: "progressCh (cworker_fault i w s) = progressCh s"
  by (cases "(i, w, s)" rule: cworker_fault.cases) (auto simp: set_cworker_def)

lemma monitor_cworker_fault [simp]: "c_monitor (cworker_fault i w s) = c_monitor s"
  by (cases "(i, w, s)" rule: cworker_fault.cases) (auto simp: set_cworker_def)

lemma main_cworker_fault [simp]: "c_main (cworker_fault i w s) = c_main s"
  by (cases "(i, w, s)" rule: cworker_fault.cases) (auto simp: set_cworker_def)

lemma busy_nonneg: "0 \<le> busy w"
  by (cases w) auto

lemma files_cworker_step [simp]: "files (cworker_step i w s) = files s"
  by (cases "(i, w, s)" rule: cworker_step.cases)
     (auto simp: set_cworker_def send_def c_panic_def
        split: list.splits sent.splits option.splits sum.splits)

lemma files_cworker_fault [simp]: "files (cworker_fault i w s) = files s"
  by (cases "(i, w, s)" rule: cworker_fault.cases) (auto simp: set_cworker_def)

lemma files_cmain_step [simp]: "files (cmain_step m s) = files s"
  by (cases m)
     (auto simp: Let_def Copier_sendFinalProgress_def c_try_send_progress_def
        Copier_Close_def c_panic_def split: option.splits)

lemma files_cmonitor_step [simp]: "files (cmonitor_step e m s) = files s"
  by (cases "(e, m, s)" rule: cmonitor_step.cases)
     (auto simp: c_try_send_progress_def c_panic_def split: option.splits)

lemma files_copy_step [simp]: "files (copy_step e s) = files s"
  by (cases e) (auto simp: copy_step_def Copier_Cancel_def)

lemma files_copy_run [simp]: "files (copy_run sched s) = files s"
  unfolding copy_run_def by (induction sched arbitrary: s) auto

lemma files_CopyFilesParallel [simp]: "files (CopyFilesParallel c t tnow pmax fl) = fl"
  by (simp add: CopyFilesParallel_def Copier.extend_def copy.fields_def)

lemma cinv_count_counted: "cinv_count s \<Longrightarrow> cinv_pc s \<Longrightarrow> counted (progress s)"
proof -
  assume c: "cinv_count s" and p: "cinv_pc s"
  have "0 \<le> sum_list (map busy (c_workers s))"
    by (rule sum_list_nonneg) (auto simp: busy_nonneg)
  with c show ?thesis by (auto simp: cinv_count_def counted_def)
qed

lemma cinv_snap_main:
  assumes "cinv_pc s" and "cinv_count s" and "cinv_snap s"
  shows "cinv_snap (cmain_step (c_main s) s)"
  by (cases "c_main s")
     (use assms cinv_count_counted[OF assms(2,1)] in \<open>auto simp: cinv_snap_def counted_def Let_def
        Copier_sendFinalProgress_def c_try_send_progress_def try_send_def enqueue_def
        Copier_Close_def close_chan_def c_panic_def
        split: option.splits cmonitor.splits\<close>)

lemma cinv_snap_monitor:
  assumes "cinv_pc s" and "cinv_count s" and "cinv_snap s"
  shows "cinv_snap (cmonitor_step e (c_monitor s) s)"
  by (cases "(e, c_monitor s, s)" rule: cmonitor_step.cases)
     (use assms cinv_count_counted[OF assms(2,1)] in \<open>auto simp: cinv_snap_def counted_def
        c_try_send_progress_def try_send_def enqueue_def c_panic_def
        split: option.splits cmonitor.splits\<close>)

lemma cinv_snap_step:
  assumes "cinv_pc s" and "cinv_count s" and "cinv_snap s"
  shows "cinv_snap (copy_step e s)"
proof (cases e)
  case (Worker i)
  then show ?thesis using assms(3) by (auto simp: copy_step_def cinv_snap_def)
next
  case (Fault i)
  then show ?thesis using assms(3) by (auto simp: copy_step_def cinv_snap_def)
next
  case MainStep
  then show ?thesis using assms cinv_snap_main[of s] by (simp add: copy_step_def)
qed (use assms cinv_snap_monitor[of s e] in
      \<open>auto simp: copy_step_def cinv_snap_def dequeue_def Copier_Cancel_def\<close>)

lemma copy_run_count_invs:
  assumes "cinv_pc s" and "cinv_count s" and "cinv_snap s"
  shows "cinv_pc (copy_run sched s) \<and> cinv_count (copy_run sched s) \<and> cinv_snap (copy_run sched s)"
  using assms unfolding copy_run_def
proof (induction sched arbitrary: s)
  case Nil
  then show ?case by simp
next
  case (Cons e sched)
  show ?case
    using Cons.IH[OF cinv_pc_step[OF Cons.prems(1)] cinv_count_step[OF Cons.prems(1,2)]
                     cinv_snap_step[OF Cons.prems(1,2,3)]]
    by simp
qed

lemma CopyFilesParallel_count_invs:
  assumes "fresh c"
  shows "cinv_pc (CopyFilesParallel c t tnow pmax fl) \<and>
         cinv_count (CopyFilesParallel c t tnow pmax fl) \<and>
         cinv_snap (CopyFilesParallel c t tnow pmax fl)"
  using assms
  by (auto simp: fresh_def cinv_pc_def cinv_count_def cinv_snap_def streams_open_def
        workers_done_def CopyFilesParallel_def Copier.extend_def copy.fields_def make_chan_def)

text \<open>
  C4.  In every state of every copy run of a fresh copier, and in every snapshot
  ever put on the progress stream, \<^verbatim>\<open>CompletedFiles + FailedFiles \<le> TotalFiles\<close>; and
  once the goroutine has started on a non-empty list, \<^verbatim>\<open>TotalFiles\<close> is the length of
  the file list and stays so.
\<close>

theorem copy_counters_bounded:
  assumes "fresh c" and "s = copy_run sched (CopyFilesParallel c t tnow pmax fl)"
  shows "CompletedFiles (progress s) + FailedFiles (progress s) \<le> TotalFiles (progress s) \<and>
         (\<forall>p \<in> set (hist (progressCh s)).
            CompletedFiles p + FailedFiles p \<le> TotalFiles p) \<and>
         (c_main s \<noteq> CStart \<and> fl \<noteq> [] \<longrightarrow> TotalFiles (progress s) = int (length fl))"
proof -
  from CopyFilesParallel_count_invs[OF assms(1)] copy_run_count_invs assms(2)
  have p: "cinv_pc s" and c: "cinv_count s" and n: "cinv_snap s" by blast+
  have f: "files s = fl" using assms(2) by simp
  from cinv_count_counted[OF c p] n c f show ?thesis
    by (auto simp: counted_def cinv_snap_def cinv_count_def)
qed

lemma fresh_NewCopier: "fresh (NewCopier src tgt apfs ncpu t)"
  by (simp add: fresh_def NewCopier_def make_chan_def)

lemma done_step:
  assumes "cinv_pc s" and "workers_done (c_main s)"
  shows "progress (copy_step e s) = progress s \<and> workers_done (c_main (copy_step e s))"
proof (cases e)
  case (Worker i)
  have "i < length (c_workers s) \<Longrightarrow> c_workers s ! i = WExit"
    using assms nth_mem[of i "c_workers s"] by (auto simp: cinv_pc_def)
  with Worker assms(2) show ?thesis by (auto simp: copy_step_def)
next
  case (Fault i)
  have "i < length (c_workers s) \<Longrightarrow> c_workers s ! i = WExit"
    using assms nth_mem[of i "c_workers s"] by (auto simp: cinv_pc_def)
  with Fault assms(2) show ?thesis by (auto simp: copy_step_def)
next
  case MainStep
  then show ?thesis using assms(2)
    by (cases "c_main s")
       (auto simp: copy_step_def workers_done_def Copier_sendFinalProgress_def
          c_try_send_progress_def Copier_Close_def c_panic_def split: option.splits)
next
  case MonTick
  then show ?thesis using assms(2)
    by (cases "(e, c_monitor s, s)" rule: cmonitor_step.cases) (auto simp: copy_step_def)
next
  case MonSend
  then show ?thesis using assms(2)
    by (cases "(e, c_monitor s, s)" rule: cmonitor_step.cases)
       (auto simp: copy_step_def c_try_send_progress_def c_panic_def split: option.splits)
next
  case MonDone
  then show ?thesis using assms(2)
    by (cases "(e, c_monitor s, s)" rule: cmonitor_step.cases) (auto simp: copy_step_def)
qed (use assms(2) in \<open>auto simp: copy_step_def Copier_Cancel_def\<close>)

lemma done_run:
  assumes "cinv_pc s" and "workers_done (c_main s)"
  shows "progress (copy_run sched s) = progress s"
  using assms unfolding copy_run_def
proof (induction sched arbitrary: s)
  case Nil
  then show ?case by simp
next
  case (Cons e sched)
  from done_step[OF Cons.prems, of e] cinv_pc_step[OF Cons.prems(1), of e]
  show ?case using Cons.IH[of "copy_step e s"] by simp
qed

text \<open>
  C8, as amended.  In every run of a fresh copier, when the main goroutine reaches
  \<^verbatim>\<open>sendFinalProgress\<close> all workers have returned and the progress stream is still
  open; its next step offers one snapshot carrying the aggregate counters to the
  stream without blocking, so the snapshot is on the stream exactly when the queue
  has room at that moment; and the aggregate counters never change afterwards.
\<close>

theorem final_snapshot_offered:
  assumes "fresh c" and "s = copy_run sched (CopyFilesParallel c t tnow pmax fl)"
    and "c_main s = CFinal"
  shows "(\<forall>w \<in> set (c_workers s). w = WExit) \<and> \<not> closed (progressCh s) \<and>
         c_main (copy_step MainStep s) = CClose \<and>
         hist (progressCh (copy_step MainStep s)) =
           (if full (progressCh s) then hist (progressCh s)
            else hist (progressCh s) @ [progress_now s]) \<and>
         CompletedFiles (progress_now s) = CompletedFiles (progress s) \<and>
         FailedFiles (progress_now s) = FailedFiles (progress s) \<and>
         CompletedSize (progress_now s) = CompletedSize (progress s) \<and>
         TotalFiles (progress_now s) = TotalFiles (progress s) \<and>
         (\<forall>sched'. progress (copy_run sched' s) = progress s)"
proof -
  from CopyFilesParallel_count_invs[OF assms(1)] copy_run_count_invs assms(2)
  have p: "cinv_pc s" by blast
  from p assms(3) have w: "\<forall>w \<in> set (c_workers s). w = WExit"
    and o: "streams_open s" and np: "\<not> c_panicked s"
    by (auto simp: cinv_pc_def workers_done_def)
  have d: "workers_done (c_main s)" using assms(3) by (simp add: workers_done_def)
  from o np assms(3) have
    "c_main (copy_step MainStep s) = CClose \<and>
     hist (progressCh (copy_step MainStep s)) =
       (if full (progressCh s) then hist (progressCh s) else hist (progressCh s) @ [progress_now s])"
    by (auto simp: copy_step_def Copier_sendFinalProgress_def c_try_send_progress_def try_send_def
          enqueue_def streams_open_def)
  with w o done_run[OF p d] show ?thesis by (simp add: streams_open_def)
qed

text \<open>The theorem on the example scenario: the queue has room, the final snapshot shows 2 files.\<close>

theorem final_snapshot_offered_witness:
  "fresh (NewCopier [''src''] [''dst''] False 1 0) \<and> c_main example_copy_final = CFinal \<and>
   \<not> full (progressCh example_copy_final) \<and>
   map CompletedFiles (hist (progressCh (copy_step MainStep example_copy_final))) = [2] \<and>
   CompletedFiles (progress (copy_run [MainStep, RecvProgress] example_copy_final)) = 2"
proof -
  have 3: "c_main example_copy_final = CFinal"
    by (simp add: example_copy_final_def example_copy_schedule_def copy_all_schedule_def
          example_files_def example_tree_def copy_defs)
  have 4: "\<not> full (progressCh example_copy_final)"
    and 5: "hist (progressCh example_copy_final) = []"
    and 6: "CompletedFiles (progress example_copy_final) = 2"
    by (simp_all add: example_copy_final_def example_copy_schedule_def copy_all_schedule_def
          example_files_def example_tree_def copy_defs)
  from final_snapshot_offered[OF fresh_NewCopier example_copy_final_def 3] fresh_NewCopier 3 4 5 6
  show ?thesis by simp
qed

lemma copy_run_append: "copy_run (xs @ ys) s = copy_run ys (copy_run xs s)"
  by (simp add: copy_run_def)

lemma clock_step: "\<not> c_panicked s \<Longrightarrow> copy_step (Clock d) s = s\<lparr>c_now := c_now s + d\<rparr>"
  by (simp add: copy_step_def)
lemma tick_step: "\<not> c_panicked s \<Longrightarrow> c_monitor s = CMonWait \<Longrightarrow>
   copy_step MonTick s = s\<lparr>c_monitor := CMonSampled (tick_snapshot s)\<rparr>"
  by (simp add: copy_step_def)
lemma send_step: "\<not> c_panicked s \<Longrightarrow> c_monitor s = CMonSampled p \<Longrightarrow> \<not> closed (progressCh s) \<Longrightarrow>
   \<not> full (progressCh s) \<Longrightarrow>
   copy_step MonSend s = s\<lparr>progressCh := accept p (progressCh s), c_monitor := CMonWait\<rparr>"
  by (simp add: copy_step_def c_try_send_progress_def try_send_def)
lemma tick_round:
  assumes "\<not> c_panicked s" and "c_monitor s = CMonWait" and "\<not> closed (progressCh s)"
    and "\<not> full (progressCh s)"
  shows "copy_run [Clock d, MonTick, MonSend] s =
           s\<lparr>c_now := c_now s + d,
              progressCh := accept (tick_snapshot (s\<lparr>c_now := c_now s + d\<rparr>)) (progressCh s),
              c_monitor := CMonWait\<rparr>"
proof -
  let ?a = "s\<lparr>c_now := c_now s + d\<rparr>"
  let ?b = "?a\<lparr>c_monitor := CMonSampled (tick_snapshot ?a)\<rparr>"
  have 1: "copy_step (Clock d) s = ?a" using assms by (simp add: clock_step)
  have 2: "copy_step MonTick ?a = ?b" using assms by (simp add: tick_step)
  have 3: "copy_step MonSend ?b = ?b\<lparr>progressCh := accept (tick_snapshot ?a) (progressCh ?b), c_monitor := CMonWait\<rparr>"
    using assms by (intro send_step) simp_all
  show ?thesis unfolding copy_run_def by (simp add: 1 2 3)
qed

lemma tick_rounds:
  assumes "\<not> c_panicked s" and "c_monitor s = CMonWait" and "\<not> closed (progressCh s)"
    and "length (buf (progressCh s)) + n \<le> cap (progressCh s)"
    and "s' = copy_run (concat (replicate n [Clock d, MonTick, MonSend])) s"
  shows "s' = s\<lparr>c_now := c_now s', progressCh := progressCh s'\<rparr> \<and>
         cap (progressCh s') = cap (progressCh s) \<and> \<not> closed (progressCh s') \<and>
         length (buf (progressCh s')) = length (buf (progressCh s)) + n \<and>
         map CompletedFiles (hist (progressCh s')) =
           map CompletedFiles (hist (progressCh s)) @ replicate n (CompletedFiles (progress s))"
  using assms
proof (induction n arbitrary: s s')
  case 0
  then show ?case by (simp add: copy_run_def)
next
  case (Suc n)
  let ?s1 = "s\<lparr>c_now := c_now s + d,
               progressCh := accept (tick_snapshot (s\<lparr>c_now := c_now s + d\<rparr>)) (progressCh s),
               c_monitor := CMonWait\<rparr>"
  from Suc.prems(4) have c: "0 < cap (progressCh s)" by simp
  from Suc.prems(4) have nf: "\<not> full (progressCh s)" by (simp add: full_buffered[OF c])
  have "copy_run (concat (replicate (Suc n) [Clock d, MonTick, MonSend])) s =
          copy_run (concat (replicate n [Clock d, MonTick, MonSend]))
            (copy_run [Clock d, MonTick, MonSend] s)"
    by (simp add: copy_run_def)
  also have "copy_run [Clock d, MonTick, MonSend] s = ?s1"
    by (rule tick_round[OF Suc.prems(1,2,3) nf])
  finally have s': "s' = copy_run (concat (replicate n [Clock d, MonTick, MonSend])) ?s1"
    using Suc.prems(5) by simp
  have "s' = ?s1\<lparr>c_now := c_now s', progressCh := progressCh s'\<rparr> \<and>
        cap (progressCh s') = cap (progressCh ?s1) \<and> \<not> closed (progressCh s') \<and>
        length (buf (progressCh s')) = length (buf (progressCh ?s1)) + n \<and>
        map CompletedFiles (hist (progressCh s')) =
          map CompletedFiles (hist (progressCh ?s1)) @ replicate n (CompletedFiles (progress ?s1))"
    using Suc.prems(1-4) c by (intro Suc.IH[OF _ _ _ _ s']) simp_all
  moreover have "s\<lparr>c_monitor := c_monitor s\<rparr> = s" by simp
  then have "\<And>a b. s\<lparr>c_monitor := CMonWait, c_now := a, progressCh := b\<rparr> =
                    s\<lparr>c_now := a, progressCh := b\<rparr>"
    unfolding Suc.prems(2) by (simp only:)
  ultimately show ?case
    using c by (simp add: replicate_append_same)
qed

lemma copy_with_full_progress_queue:
  assumes "\<not> closed ch" and "full ch"
    and "s = copy_run (copy_all_schedule @ [MainStep, MainStep, MainStep, MainStep])
               (example_copy_started\<lparr>c_now := tt, progressCh := ch\<rparr>)"
  shows "c_main s = CExit \<and> CompletedFiles (progress s) = 2 \<and> progressCh s = close_chan ch"
  using assms
  by (simp add: example_copy_started_def copy_all_schedule_def example_files_def example_tree_def
        copy_defs)

text \<open>
  C8 as stated fails.  In the slow-reader run the progress queue holds 100 snapshots
  when the workers finish; the final snapshot is dropped, the stream is closed, and
  every snapshot on it shows 0 completed files while the final state has 2.  And with
  an empty file list the stream is closed without any snapshot.
\<close>

theorem final_snapshot_counterexample:
  "c_main slow_reader_copy = CExit \<and> closed (progressCh slow_reader_copy) \<and>
   CompletedFiles (progress slow_reader_copy) = 2 \<and>
   map CompletedFiles (hist (progressCh slow_reader_copy)) = replicate 100 0 \<and>
   c_main dirs_only_copy = CExit \<and> closed (progressCh dirs_only_copy) \<and>
   hist (progressCh dirs_only_copy) = []"
proof -
  define s2 where
    "s2 = copy_run (concat (replicate 100 [Clock 500000000, MonTick, MonSend])) example_copy_started"
  have start: "\<not> c_panicked example_copy_started" "c_monitor example_copy_started = CMonWait"
    "\<not> closed (progressCh example_copy_started)"
    "length (buf (progressCh example_copy_started)) + 100 \<le> cap (progressCh example_copy_started)"
    "cap (progressCh example_copy_started) = 100" "buf (progressCh example_copy_started) = []"
    "hist (progressCh example_copy_started) = []"
    "CompletedFiles (progress example_copy_started) = 0"
    by (simp_all add: example_copy_started_def example_files_def example_tree_def copy_defs)
  from tick_rounds[OF start(1-4) s2_def] start(5-8)
  have eq: "s2 = example_copy_started\<lparr>c_now := c_now s2, progressCh := progressCh s2\<rparr>"
    and op: "\<not> closed (progressCh s2)" and fl: "full (progressCh s2)"
    and hs: "map CompletedFiles (hist (progressCh s2)) = replicate 100 0"
    by (simp_all add: full_def)
  have run: "slow_reader_copy =
      copy_run (copy_all_schedule @ [MainStep, MainStep, MainStep, MainStep]) s2"
    by (simp add: slow_reader_copy_def slow_reader_schedule_def s2_def example_copy_started_def
          copy_run_def)
  from copy_with_full_progress_queue[OF op fl, of slow_reader_copy "c_now s2"] run eq
  have "c_main slow_reader_copy = CExit \<and> CompletedFiles (progress slow_reader_copy) = 2 \<and>
        progressCh slow_reader_copy = close_chan (progressCh s2)"
    by simp
  moreover have "c_main dirs_only_copy = CExit \<and> closed (progressCh dirs_only_copy) \<and>
     hist (progressCh dirs_only_copy) = []"
    by (simp add: dirs_only_copy_def dirs_only_tree_def copy_defs)
  ultimately show ?thesis using hs by (simp add: close_chan_def)
qed

text \<open>C4 on the example scenario, run to the end.\<close>

theorem copy_counters_bounded_witness:
  "fresh (NewCopier [''src''] [''dst''] False 1 0) \<and> example_files \<noteq> [] \<and>
   c_main example_copy = CExit \<and>
   CompletedFiles (progress example_copy) = 2 \<and> FailedFiles (progress example_copy) = 0 \<and>
   TotalFiles (progress example_copy) = 2 \<and>
   map CompletedFiles (hist (progressCh example_copy)) = [2] \<and>
   map TotalFiles (hist (progressCh example_copy)) = [2] \<and>
   CompletedFiles (progress example_copy) + FailedFiles (progress example_copy)
     \<le> TotalFiles (progress example_copy)"
proof -
  have e: "example_copy =
     copy_run (example_copy_schedule @ [MainStep, MainStep])
       (CopyFilesParallel (NewCopier [''src''] [''dst''] False 1 0) example_tree 0 1000
          example_files)"
    by (simp add: example_copy_def example_copy_final_def copy_run_def)
  have 1: "c_main example_copy = CExit" "CompletedFiles (progress example_copy) = 2"
    "FailedFiles (progress example_copy) = 0" "TotalFiles (progress example_copy) = 2"
    "map CompletedFiles (hist (progressCh example_copy)) = [2]"
    "map TotalFiles (hist (progressCh example_copy)) = [2]" "example_files \<noteq> []"
    by (simp_all add: example_copy_def example_copy_final_def example_copy_schedule_def
          copy_all_schedule_def example_files_def example_tree_def copy_defs)
  from copy_counters_bounded[OF fresh_NewCopier e] fresh_NewCopier 1 show ?thesis by simp
qed

lemma held_eq_worker:
  assumes "held_eq s f" and "i < length (c_workers s)" and "c_workers s ! i = w"
  shows "held_eq (cworker_step i w s) f"
  by (cases "(i, w, s)" rule: cworker_step.cases)
     (use assms in \<open>auto simp: held_eq_def holds_def set_cworker_def sum_list_map_update
        failed_def succeeded_def send_def c_panic_def
        split: list.splits sent.splits option.splits sum.splits\<close>)

lemma queue_le_worker:
  assumes "queue_le s f" and "i < length (c_workers s)" and "c_workers s ! i = w"
  shows "queue_le (cworker_step i w s) f"
  by (cases "(i, w, s)" rule: cworker_step.cases)
     (use assms in \<open>auto simp: queue_le_def set_cworker_def sum_list_map_update
        failed_def succeeded_def send_def c_panic_def
        split: list.splits sent.splits option.splits sum.splits\<close>)

lemma upd_eq_worker:
  assumes "upd_eq s" and "i < length (c_workers s)" and "c_workers s ! i = w"
  shows "upd_eq (cworker_step i w s)"
  by (cases "(i, w, s)" rule: cworker_step.cases)
     (use assms in \<open>auto simp: upd_eq_def updating_def set_cworker_def sum_list_map_update
        failed_def succeeded_def send_def c_panic_def
        split: list.splits sent.splits option.splits sum.splits\<close>)

lemma held_eq_fault:
  assumes "held_eq s f" and "i < length (c_workers s)" and "c_workers s ! i = w"
  shows "held_eq (cworker_fault i w s) f"
  by (cases "(i, w, s)" rule: cworker_fault.cases)
     (use assms in \<open>auto simp: held_eq_def holds_def set_cworker_def sum_list_map_update failed_def\<close>)

lemma queue_le_fault:
  assumes "queue_le s f" and "i < length (c_workers s)" and "c_workers s ! i = w"
  shows "queue_le (cworker_fault i w s) f"
  by (cases "(i, w, s)" rule: cworker_fault.cases)
     (use assms in \<open>auto simp: queue_le_def set_cworker_def sum_list_map_update failed_def\<close>)

lemma upd_eq_fault:
  assumes "upd_eq s" and "i < length (c_workers s)" and "c_workers s ! i = w"
  shows "upd_eq (cworker_fault i w s)"
  by (cases "(i, w, s)" rule: cworker_fault.cases)
     (use assms in \<open>auto simp: upd_eq_def updating_def set_cworker_def sum_list_map_update failed_def\<close>)

lemma held_eq_main:
  assumes "cinv_pc s" and "held_eq s f"
  shows "held_eq (cmain_step (c_main s) s) f"
  by (cases "c_main s")
     (use assms in \<open>auto simp: held_eq_def holds_def cinv_pc_def Let_def
        Copier_sendFinalProgress_def c_try_send_progress_def try_send_def
        Copier_Close_def c_panic_def sum_list_replicate
        split: option.splits\<close>)

lemma queue_le_main:
  assumes "cinv_pc s" and "queue_le s f"
  shows "queue_le (cmain_step (c_main s) s) f"
  by (cases "c_main s")
     (use assms in \<open>auto simp: queue_le_def cinv_pc_def Let_def
        Copier_sendFinalProgress_def c_try_send_progress_def try_send_def
        Copier_Close_def c_panic_def sum_list_replicate
        split: option.splits\<close>)

lemma upd_eq_main:
  assumes "cinv_pc s" and "upd_eq s"
  shows "upd_eq (cmain_step (c_main s) s)"
  by (cases "c_main s")
     (use assms in \<open>auto simp: upd_eq_def updating_def cinv_pc_def Let_def
        Copier_sendFinalProgress_def c_try_send_progress_def try_send_def
        Copier_Close_def c_panic_def sum_list_replicate
        split: option.splits\<close>)

lemma held_eq_monitor:
  "held_eq s f \<Longrightarrow> held_eq (cmonitor_step e (c_monitor s) s) f"
  by (cases "(e, c_monitor s, s)" rule: cmonitor_step.cases)
     (auto simp: held_eq_def c_try_send_progress_def try_send_def c_panic_def
        split: option.splits)

lemma queue_le_monitor:
  "queue_le s f \<Longrightarrow> queue_le (cmonitor_step e (c_monitor s) s) f"
  by (cases "(e, c_monitor s, s)" rule: cmonitor_step.cases)
     (auto simp: queue_le_def c_try_send_progress_def try_send_def c_panic_def
        split: option.splits)

lemma upd_eq_monitor:
  "upd_eq s \<Longrightarrow> upd_eq (cmonitor_step e (c_monitor s) s)"
  by (cases "(e, c_monitor s, s)" rule: cmonitor_step.cases)
     (auto simp: upd_eq_def c_try_send_progress_def try_send_def c_panic_def
        split: option.splits)

lemma held_eq_step:
  assumes "cinv_pc s" and "held_eq s f"
  shows "held_eq (copy_step e s) f"
proof (cases e)
  case (Worker i)
  then show ?thesis
    using assms(2) held_eq_worker[of s f i "c_workers s ! i"] by (auto simp: copy_step_def)
next
  case (Fault i)
  then show ?thesis
    using assms(2) held_eq_fault[of s f i "c_workers s ! i"] by (auto simp: copy_step_def)
next
  case MainStep
  then show ?thesis using assms held_eq_main[of s f] by (simp add: copy_step_def)
qed (use assms held_eq_monitor[of s f e] in
      \<open>auto simp: copy_step_def held_eq_def Copier_Cancel_def\<close>)

lemma queue_le_step:
  assumes "cinv_pc s" and "queue_le s f"
  shows "queue_le (copy_step e s) f"
proof (cases e)
  case (Worker i)
  then show ?thesis
    using assms(2) queue_le_worker[of s f i "c_workers s ! i"] by (auto simp: copy_step_def)
next
  case (Fault i)
  then show ?thesis
    using assms(2) queue_le_fault[of s f i "c_workers s ! i"] by (auto simp: copy_step_def)
next
  case MainStep
  then show ?thesis using assms queue_le_main[of s f] by (simp add: copy_step_def)
qed (use assms queue_le_monitor[of s f e] in
      \<open>auto simp: copy_step_def queue_le_def Copier_Cancel_def\<close>)

lemma upd_eq_step:
  assumes "cinv_pc s" and "upd_eq s"
  shows "upd_eq (copy_step e s)"
proof (cases e)
  case (Worker i)
  then show ?thesis
    using assms(2) upd_eq_worker[of s i "c_workers s ! i"] by (auto simp: copy_step_def)
next
  case (Fault i)
  then show ?thesis
    using assms(2) upd_eq_fault[of s i "c_workers s ! i"] by (auto simp: copy_step_def)
next
  case MainStep
  then show ?thesis using assms upd_eq_main[of s] by (simp add: copy_step_def)
qed (use assms upd_eq_monitor[of s e] in
      \<open>auto simp: copy_step_def upd_eq_def Copier_Cancel_def\<close>)

lemma cinv_results_step:
  assumes "cinv_pc s" and "cinv_results s"
  shows "cinv_results (copy_step e s)"
  using assms held_eq_step queue_le_step upd_eq_step by (simp add: cinv_results_def)

lemma cinv_results_run:
  assumes "cinv_pc s" and "cinv_results s"
  shows "cinv_results (copy_run sched s)"
  using assms unfolding copy_run_def
proof (induction sched arbitrary: s)
  case Nil
  then show ?case by simp
next
  case (Cons e sched)
  from Cons.IH[OF cinv_pc_step[OF Cons.prems(1)] cinv_results_step[OF Cons.prems]]
  show ?case by simp
qed

lemma cinv_results_CopyFilesParallel:
  "fresh c \<Longrightarrow> cinv_results (CopyFilesParallel c t tnow pmax fl)"
  by (simp add: fresh_def cinv_results_def held_eq_def queue_le_def upd_eq_def
        CopyFilesParallel_def Copier.extend_def copy.fields_def make_chan_def)

lemma holds_in_flight:
  "sum_list (map (holds f) ws) = int (count (mset (concat (map held ws))) f)"
  by (induction ws) (auto simp: holds_def count_mset)

lemma updating_pending:
  "sum_list (map (updating b) ws) = int (length (filter (pending_update b) ws))"
  by (induction ws) (auto simp: updating_def)

lemma at_check_nonneg: "0 \<le> sum_list (map (at_check f) ws)"
proof -
  have "0 \<le> at_check f w" for w by (cases w) auto
  then show ?thesis by (auto intro!: sum_list_nonneg)
qed

lemma all_exit_idle:
  assumes "\<forall>w \<in> set ws. w = WExit"
  shows "concat (map held ws) = [] \<and> filter (pending_update b) ws = []"
  using assms by (induction ws) auto

text \<open>
  C5, as amended.  In every run of a fresh copier, at every moment: the attempted
  files are exactly the files with a \<^verbatim>\<open>CopyResult\<close> on the result stream together with
  the files a worker has attempted and not yet reported, each counted as often as it
  was attempted; no file is attempted more often than the file list names it; the
  successful results on the stream are those counted in \<^verbatim>\<open>CompletedFiles\<close> and those
  whose worker is about to count them, and likewise the failed results and
  \<^verbatim>\<open>FailedFiles\<close>.  Once the main goroutine has passed \<^verbatim>\<open>wg.Wait()\<close>, every attempted
  file has exactly one result, every result has been counted in exactly one of the
  two counters, and a file that was not attempted has no result.
\<close>

theorem one_result_per_attempt:
  assumes "fresh c" and "s = copy_run sched (CopyFilesParallel c t tnow pmax fl)"
  shows "mset (attempted s) = mset (map FilePath (hist (resultCh s))) + in_flight s \<and>
         mset (attempted s) \<subseteq># mset fl \<and>
         CompletedFiles (progress s) + int (length (filter (pending_update True) (c_workers s))) =
           int (length (filter Success (hist (resultCh s)))) \<and>
         FailedFiles (progress s) + int (length (filter (pending_update False) (c_workers s))) =
           int (length (filter (\<lambda>r. \<not> Success r) (hist (resultCh s)))) \<and>
         (workers_done (c_main s) \<longrightarrow>
            mset (attempted s) = mset (map FilePath (hist (resultCh s))) \<and>
            CompletedFiles (progress s) = int (length (filter Success (hist (resultCh s)))) \<and>
            FailedFiles (progress s) = int (length (filter (\<lambda>r. \<not> Success r) (hist (resultCh s)))) \<and>
            CompletedFiles (progress s) + FailedFiles (progress s) = int (length (attempted s)))"
proof -
  from CopyFilesParallel_count_invs[OF assms(1)] copy_run_count_invs assms(2)
  have p: "cinv_pc s" by blast
  from CopyFilesParallel_count_invs[OF assms(1), of t tnow pmax fl]
    cinv_results_run[OF _ cinv_results_CopyFilesParallel[OF assms(1)], of t tnow pmax fl sched]
    assms(2)
  have r: "cinv_results s" by blast
  have f: "files s = fl" using assms(2) by simp
  have 1: "mset (attempted s) = mset (map FilePath (hist (resultCh s))) + in_flight s"
  proof (rule multiset_eqI)
    fix x
    from r have "held_eq s x" by (simp add: cinv_results_def)
    then have "int (count_list (attempted s) x) =
               int (count_list (map FilePath (hist (resultCh s))) x) +
               int (count_list (concat (map held (c_workers s))) x)"
      by (simp add: held_eq_def holds_in_flight count_mset)
    then show "count (mset (attempted s)) x =
               count (mset (map FilePath (hist (resultCh s))) + in_flight s) x"
      unfolding in_flight_def count_union count_mset by linarith
  qed
  have 2: "mset (attempted s) \<subseteq># mset fl"
  proof (rule mset_subset_eqI)
    fix x
    from r have "queue_le s x" by (simp add: cinv_results_def)
    then show "count (mset (attempted s)) x \<le> count (mset fl) x"
      using at_check_nonneg[of x "c_workers s"] f by (simp add: queue_le_def count_mset)
  qed
  from r have 3: "CompletedFiles (progress s) + int (length (filter (pending_update True) (c_workers s))) =
           int (length (filter Success (hist (resultCh s))))"
    and 4: "FailedFiles (progress s) + int (length (filter (pending_update False) (c_workers s))) =
           int (length (filter (\<lambda>r. \<not> Success r) (hist (resultCh s))))"
    by (simp_all add: cinv_results_def upd_eq_def updating_pending)
  have 5: "mset (attempted s) = mset (map FilePath (hist (resultCh s))) \<and>
           CompletedFiles (progress s) = int (length (filter Success (hist (resultCh s)))) \<and>
           FailedFiles (progress s) = int (length (filter (\<lambda>r. \<not> Success r) (hist (resultCh s)))) \<and>
           CompletedFiles (progress s) + FailedFiles (progress s) = int (length (attempted s))"
    if d: "workers_done (c_main s)"
  proof -
    from p d have "\<forall>w \<in> set (c_workers s). w = WExit" by (simp add: cinv_pc_def)
    from all_exit_idle[OF this]
    have i: "in_flight s = {#}" and u: "\<And>b. filter (pending_update b) (c_workers s) = []"
      by (simp_all add: in_flight_def)
    from 1 i have a: "mset (attempted s) = mset (map FilePath (hist (resultCh s)))" by simp
    then have "size (mset (attempted s)) = size (mset (map FilePath (hist (resultCh s))))" by simp
    then have "length (attempted s) = length (hist (resultCh s))" by simp
    with a 3 4 u sum_length_filter_compl[of Success "hist (resultCh s)"] show ?thesis by simp
  qed
  from 1 2 3 4 5 show ?thesis by blast
qed

text \<open>
  The theorem on the example scenario, run to the end: both files were attempted, the
  result stream holds one successful result for each, and both are counted as
  completed.
\<close>

theorem one_result_per_attempt_witness:
  "fresh (NewCopier [''src''] [''dst''] False 1 0) \<and> workers_done (c_main example_copy) \<and>
   attempted example_copy = example_files \<and>
   map FilePath (hist (resultCh example_copy)) = example_files \<and>
   map Success (hist (resultCh example_copy)) = [True, True] \<and>
   CompletedFiles (progress example_copy) = 2 \<and> FailedFiles (progress example_copy) = 0 \<and>
   mset (attempted example_copy) = mset (map FilePath (hist (resultCh example_copy))) \<and>
   CompletedFiles (progress example_copy) + FailedFiles (progress example_copy) =
     int (length (attempted example_copy))"
proof -
  have e: "example_copy =
     copy_run (example_copy_schedule @ [MainStep, MainStep])
       (CopyFilesParallel (NewCopier [''src''] [''dst''] False 1 0) example_tree 0 1000
          example_files)"
    by (simp add: example_copy_def example_copy_final_def copy_run_def)
  have 1: "workers_done (c_main example_copy)" "attempted example_copy = example_files"
    "map FilePath (hist (resultCh example_copy)) = example_files"
    "map Success (hist (resultCh example_copy)) = [True, True]"
    "CompletedFiles (progress example_copy) = 2" "FailedFiles (progress example_copy) = 0"
    by (simp_all add: example_copy_def example_copy_final_def example_copy_schedule_def
          copy_all_schedule_def example_files_def example_tree_def workers_done_def
          failed_def succeeded_def copy_defs)
  from one_result_per_attempt[OF fresh_NewCopier e] fresh_NewCopier 1 show ?thesis by simp
qed

lemma gone_facts:
  "Rel [''src''] (gone k) = Inr [replicate (Suc k) CHR ''a'']"
  "Join [''dst''] [replicate (Suc k) CHR ''a''] = [''dst'', replicate (Suc k) CHR ''a'']"
  "lookup (Directory [(''src'', Directory []), (''dst'', Directory [])]) (gone k) = None"
  by (simp_all add: gone_def Rel_def)

lemma reported_start: "reported 0 stalled_start"
  by (simp add: reported_def stalled_start_def gone_files_def emptied_tree_def copy_defs)

lemma reported_round:
  assumes "reported n s" and "n < 1000"
  shows "reported (Suc n) (copy_run (replicate 6 (Worker 0)) s)"
proof -
  from assms(2) have u: "[n..<1001] = n # [Suc n..<1001]" by (simp add: upt_conv_Cons)
  show ?thesis
    using assms
    by (simp add: reported_def u copy_run_def copy_step_def set_cworker_def gone_facts
          send_def full_def failed_def replicate_numeral)
qed

lemma reported_rounds:
  assumes "reported 0 s" and "k \<le> 1000"
  shows "reported k (copy_run (replicate (6 * k) (Worker 0)) s)"
  using assms(2)
proof (induction k)
  case 0
  then show ?case using assms(1) by (simp add: copy_run_def)
next
  case (Suc k)
  have "replicate (6 * Suc k) (Worker 0) = replicate (6 * k) (Worker 0) @ replicate 6 (Worker 0)"
    by (simp add: replicate_add[symmetric])
  then have "copy_run (replicate (6 * Suc k) (Worker 0)) s =
             copy_run (replicate 6 (Worker 0)) (copy_run (replicate (6 * k) (Worker 0)) s)"
    by (simp add: copy_run_append)
  with Suc show ?case using reported_round[of k "copy_run (replicate (6 * k) (Worker 0)) s"]
    by simp
qed

lemma reported_stalls:
  assumes "reported 1000 s"
  shows "stalled (hist (resultCh s)) (copy_run (replicate 4 (Worker 0)) s)"
proof -
  have u: "[1000..<1001] = [1000]" by (simp add: upt_conv_Cons)
  have g: "gone_files = map gone [0..<1000] @ [gone 1000]"
  proof -
    have "[0..<1001] = [0..<1000] @ [1000]" using upt_Suc_append[of 0 1000] by simp
    then show ?thesis by (simp add: gone_files_def)
  qed
  show ?thesis
    using assms
    by (simp add: reported_def stalled_def u g copy_run_def copy_step_def set_cworker_def
          gone_facts failed_def replicate_numeral)
qed

lemma stalled_copy_stalled: "stalled (hist (resultCh stalled_copy)) stalled_copy"
proof -
  let ?s = "copy_run (replicate (6 * 1000) (Worker 0)) stalled_start"
  have "replicate (6 * 1000 + 4) (Worker 0) = replicate (6 * 1000) (Worker 0) @ replicate 4 (Worker 0)"
    by (simp only: replicate_add)
  then have c: "stalled_copy = copy_run (replicate 4 (Worker 0)) ?s"
    by (simp only: stalled_copy_def copy_run_append)
  have r: "reported 1000 ?s" by (rule reported_rounds[OF reported_start]) simp
  from reported_stalls[OF r] have s: "stalled (hist (resultCh ?s)) stalled_copy"
    by (simp only: c)
  then have "hist (resultCh stalled_copy) = hist (resultCh ?s)" by (simp add: stalled_def)
  with s show ?thesis by simp
qed

lemma stalled_step:
  assumes "stalled h s" and "e \<noteq> RecvResult"
  shows "stalled h (copy_step e s)"
proof (cases e)
  case (Worker i)
  then show ?thesis using assms(1)
    by (cases i) (auto simp: stalled_def copy_step_def send_def full_def)
next
  case (Fault i)
  then show ?thesis using assms(1)
    by (cases i) (auto simp: stalled_def copy_step_def)
next
  case MainStep
  then show ?thesis using assms(1) by (auto simp: stalled_def copy_step_def)
next
  case MonTick
  then show ?thesis using assms(1)
    by (cases "(e, c_monitor s, s)" rule: cmonitor_step.cases)
       (auto simp: stalled_def copy_step_def)
next
  case MonSend
  then show ?thesis using assms(1)
    by (cases "(e, c_monitor s, s)" rule: cmonitor_step.cases)
       (auto simp: stalled_def copy_step_def c_try_send_progress_def c_panic_def try_send_def
          split: option.splits)
next
  case MonDone
  then show ?thesis using assms(1)
    by (cases "(e, c_monitor s, s)" rule: cmonitor_step.cases)
       (auto simp: stalled_def copy_step_def)
qed (use assms in \<open>auto simp: stalled_def copy_step_def Copier_Cancel_def\<close>)

text \<open>
  As long as nobody receives from the result stream, nothing the scheduler, the
  clock, the monitor or a cancellation does gets the worker past its send.
\<close>

lemma stalled_forever:
  assumes "stalled h s" and "RecvResult \<notin> set sched"
  shows "stalled h (copy_run sched s)"
  using assms unfolding copy_run_def
proof (induction sched arbitrary: s)
  case Nil
  then show ?case by simp
next
  case (Cons e sched)
  from Cons.prems have "stalled h (copy_step e s)" by (intro stalled_step) auto
  with Cons show ?case by simp
qed

lemma gone_inj: "gone j = gone k \<Longrightarrow> j = k"
  by (simp add: gone_def)

text \<open>
  C5 as stated fails.  With 1001 files and nobody receiving from the result stream,
  whose queue holds 1000 results, the worker has attempted the last file and waits at
  the blocking send: that file has no \<^verbatim>\<open>CopyResult\<close> on the stream and is counted in
  neither counter, and the worker's next step changes nothing.
\<close>

theorem stalled_result_counterexample:
  "length gone_files = 1001 \<and> attempted stalled_copy = gone_files \<and>
   gone 1000 \<in> set (attempted stalled_copy) \<and>
   gone 1000 \<notin> set (map FilePath (hist (resultCh stalled_copy))) \<and>
   length (hist (resultCh stalled_copy)) = 1000 \<and>
   CompletedFiles (progress stalled_copy) + FailedFiles (progress stalled_copy) = 1000 \<and>
   c_workers stalled_copy = [WSend (failed (gone 1000) (ErrStat (gone 1000)) 0)] \<and>
   c_main stalled_copy = CWait \<and>
   copy_step (Worker 0) stalled_copy = stalled_copy \<and>
   copy_run [MainStep, Worker 0, Clock 500000000, MonTick, MonSend, Worker 0] stalled_copy
     = copy_run [Clock 500000000, MonTick, MonSend] stalled_copy"
proof -
  note s = stalled_copy_stalled
  have 1: "length gone_files = 1001" by (simp add: gone_files_def)
  have 2: "gone 1000 \<in> set gone_files" by (simp add: gone_files_def)
  have 3: "gone 1000 \<notin> set (map gone [0..<1000])" using gone_inj[of 1000] by fastforce
  from s have 4: "length (hist (resultCh stalled_copy)) = 1000"
    using length_map[of FilePath "hist (resultCh stalled_copy)"] by (simp add: stalled_def)
  have w: "copy_step (Worker 0) x = x" if "stalled h x" for h x
    using that by (simp add: stalled_def copy_step_def send_def full_def)
  have m: "copy_step MainStep x = x" if "stalled h x" for h x
    using that by (simp add: stalled_def copy_step_def)
  have t: "stalled (hist (resultCh stalled_copy)) (copy_run [Clock 500000000, MonTick, MonSend] stalled_copy)"
    by (rule stalled_forever[OF s]) simp
  have 5: "copy_run [MainStep, Worker 0, Clock 500000000, MonTick, MonSend, Worker 0] stalled_copy
     = copy_run [Clock 500000000, MonTick, MonSend] stalled_copy"
    using w[OF s] m[OF s] w[OF t] by (simp add: copy_run_def)
  from s 1 2 3 4 5 w[OF s] show ?thesis by (simp add: stalled_def)
qed


lemma fs_cworker_fault [simp]: "fs (cworker_fault i w s) = fs s"
  by (cases "(i, w, s)" rule: cworker_fault.cases) (auto simp: set_cworker_def)


lemma fs_cmonitor_step [simp]: "fs (cmonitor_step e m s) = fs s"
  by (cases "(e, m, s)" rule: cmonitor_step.cases)
     (auto simp: c_try_send_progress_def c_panic_def split: option.splits)





end
